theory Spec2Isabelle
  imports Main "HOL-Library.Char_ord" "HOL-Library.List_Lexorder" "HOL-Library.Product_Lexorder"
begin

section \<open>Calendar values: Python's \<open>datetime\<close>\<close>

text \<open>
  The reminder subsystem of \<^verbatim>\<open>assistant.py\<close> computes with \<^verbatim>\<open>datetime\<close> objects and
  stores them as ISO-8601 text in SQLite. A \<^verbatim>\<open>datetime\<close> is a record of calendar fields
  with an optional \<^verbatim>\<open>tzinfo\<close>; the three time zones the program meets are
  \<^verbatim>\<open>tz.UTC\<close>, \<^verbatim>\<open>USER_TZ = tz.gettz()\<close> and a fixed offset (seconds east of UTC), which is
  what a parsed \<^verbatim>\<open>+HH:MM\<close> suffix gives. The \<^verbatim>\<open>fold\<close> attribute is always 0 in this
  program and is left out.
\<close>

datatype tzinfo = UTC | USER_TZ | FixedOffset int

record datetime =
  year :: nat
  month :: nat
  day :: nat
  hour :: nat
  minute :: nat
  second :: nat
  microsecond :: nat
  tzinfo :: "tzinfo option"

datatype error =
  ParserError | OverflowError | TypeError | ValueError | StorageError | JobLookupError

definition is_leap :: "nat \<Rightarrow> bool" where
  "is_leap y = (y mod 4 = 0 \<and> (y mod 100 \<noteq> 0 \<or> y mod 400 = 0))"

definition days_before_year :: "nat \<Rightarrow> nat" where
  \<comment> \<open>number of days before January 1st of year \<open>y\<close>\<close>
  "days_before_year y = (y - 1) * 365 + (y - 1) div 4 - (y - 1) div 100 + (y - 1) div 400"

definition days_in_month :: "nat \<Rightarrow> nat \<Rightarrow> nat" where
  "days_in_month y m =
     (if m = 2 then (if is_leap y then 29 else 28)
      else if m = 4 \<or> m = 6 \<or> m = 9 \<or> m = 11 then 30 else 31)"

fun days_before_month :: "nat \<Rightarrow> nat \<Rightarrow> nat" where
  \<comment> \<open>number of days in year \<open>y\<close> before the first day of month \<open>m\<close>\<close>
  "days_before_month y 0 = 0"
| "days_before_month y (Suc m) =
     (if m = 0 then 0 else days_before_month y m + days_in_month y m)"

definition ymd2ord :: "nat \<Rightarrow> nat \<Rightarrow> nat \<Rightarrow> nat" where
  \<comment> \<open>proleptic Gregorian ordinal: 0001-01-01 is day 1\<close>
  "ymd2ord y m d = days_before_year y + days_before_month y m + d"

definition MINYEAR :: nat where "MINYEAR = 1"
definition MAXYEAR :: nat where "MAXYEAR = 9999"

definition valid_datetime :: "datetime \<Rightarrow> bool" where
  \<comment> \<open>the field ranges every \<^verbatim>\<open>datetime\<close> object satisfies (the constructor checks them)\<close>
  "valid_datetime d =
     (MINYEAR \<le> year d \<and> year d \<le> MAXYEAR \<and> 1 \<le> month d \<and> month d \<le> 12 \<and>
      1 \<le> day d \<and> day d \<le> days_in_month (year d) (month d) \<and>
      hour d < 24 \<and> minute d < 60 \<and> second d < 60 \<and> microsecond d < 1000000)"

text \<open>
  The year holding ordinal \<open>n\<close> is found by searching upwards from an underestimate; the month
  by walking through the year. Both searches return the same date as CPython's
  divmod-based \<^verbatim>\<open>_ord2ymd\<close>, whose correctness is the pair of round-trip lemmas below.
\<close>

function find_year :: "nat \<Rightarrow> nat \<Rightarrow> nat" where
  "find_year n y = (if n \<le> days_before_year (Suc y) then y else find_year n (Suc y))"
  by pat_completeness auto
termination
proof (relation "measure (\<lambda>(n, y). n - days_before_year (Suc y))")
  show "wf (measure (\<lambda>(n, y). n - days_before_year (Suc y)))" by simp
next
  fix n y :: nat
  assume "\<not> n \<le> days_before_year (Suc y)"
  moreover have "days_before_year (Suc y) < days_before_year (Suc (Suc y))"
    unfolding days_before_year_def by simp
  ultimately show "((n, Suc y), (n, y)) \<in> measure (\<lambda>(n, y). n - days_before_year (Suc y))"
    by simp
qed

function find_month :: "nat \<Rightarrow> nat \<Rightarrow> nat \<Rightarrow> nat \<times> nat" where
  "find_month y m r =
     (if r \<le> days_in_month y m \<or> 12 \<le> m then (m, r)
      else find_month y (Suc m) (r - days_in_month y m))"
  by pat_completeness auto
termination
  by (relation "measure (\<lambda>(y, m, r). 12 - m)") auto

definition ord2ymd :: "nat \<Rightarrow> nat \<times> nat \<times> nat" where
  "ord2ymd n =
     (let y = find_year n (n div 366 + 1);
          (m, d) = find_month y 1 (n - days_before_year y)
      in (y, m, d))"

definition US_PER_DAY :: int where "US_PER_DAY = 86400000000"

definition time_micros :: "datetime \<Rightarrow> int" where
  \<comment> \<open>microseconds since midnight\<close>
  "time_micros d =
     ((int (hour d) * 60 + int (minute d)) * 60 + int (second d)) * 1000000 + int (microsecond d)"

definition to_micros :: "datetime \<Rightarrow> int" where
  \<comment> \<open>microseconds of the wall-clock reading, counted from the start of day 0\<close>
  "to_micros d = int (ymd2ord (year d) (month d) (day d)) * US_PER_DAY + time_micros d"

definition min_micros :: int where "min_micros = US_PER_DAY"
definition max_micros :: int where "max_micros = 3652060 * US_PER_DAY - 1"

definition divmod :: "nat \<Rightarrow> nat \<Rightarrow> nat \<times> nat" where
  "divmod a b = (a div b, a mod b)"

definition of_micros :: "int \<Rightarrow> tzinfo option \<Rightarrow> error + datetime" where
  \<comment> \<open>the datetime with a given microsecond count; \<^verbatim>\<open>OverflowError\<close> outside 0001..9999\<close>
  "of_micros n z =
     (if n < min_micros \<or> max_micros < n then Inl OverflowError
      else
        (case divmod (nat n) 86400000000 of (days, r1) \<Rightarrow>
         case divmod r1 3600000000 of (h, r2) \<Rightarrow>
         case divmod r2 60000000 of (mi, r3) \<Rightarrow>
         case divmod r3 1000000 of (s, us) \<Rightarrow>
         case ord2ymd days of (y, m, d) \<Rightarrow>
           Inr \<lparr>year = y, month = m, day = d, hour = h, minute = mi, second = s,
                microsecond = us, tzinfo = z\<rparr>))"

definition dt_tuple :: "datetime \<Rightarrow> nat \<times> nat \<times> nat \<times> nat \<times> nat \<times> nat \<times> nat" where
  \<comment> \<open>the tuple that \<^verbatim>\<open>datetime._cmp\<close> compares when both sides have the same tzinfo\<close>
  "dt_tuple d = (year d, month d, day d, hour d, minute d, second d, microsecond d)"

declare find_year.simps [simp del] find_month.simps [simp del]

type_synonym zone = "datetime \<Rightarrow> int"

definition utcoffset :: "zone \<Rightarrow> datetime \<Rightarrow> int option" where
  \<comment> \<open>\<^verbatim>\<open>dt.utcoffset()\<close> in seconds; \<open>zone\<close> is the rule of the local zone \<^verbatim>\<open>tz.gettz()\<close>\<close>
  "utcoffset zone d =
     (case tzinfo d of
        None \<Rightarrow> None
      | Some UTC \<Rightarrow> Some 0
      | Some USER_TZ \<Rightarrow> Some (zone d)
      | Some (FixedOffset k) \<Rightarrow> Some k)"

definition cmp :: "'a::linorder \<Rightarrow> 'a \<Rightarrow> int" where
  "cmp x y = (if x = y then 0 else if x < y then - 1 else 1)"

definition dt_cmp :: "zone \<Rightarrow> datetime \<Rightarrow> datetime \<Rightarrow> error + int" where
  \<comment> \<open>\<^verbatim>\<open>datetime._cmp\<close>: same tzinfo (or equal offsets) compares the fields, different
      offsets compare the instants, naive against aware raises \<^verbatim>\<open>TypeError\<close>\<close>
  "dt_cmp zone a b =
     (if tzinfo a = tzinfo b then Inr (cmp (dt_tuple a) (dt_tuple b))
      else
        (case utcoffset zone a of
           None \<Rightarrow> Inl TypeError
         | Some oa \<Rightarrow>
             (case utcoffset zone b of
                None \<Rightarrow> Inl TypeError
              | Some ob \<Rightarrow>
                  if oa = ob then Inr (cmp (dt_tuple a) (dt_tuple b))
                  else Inr (cmp (to_micros a - oa * 1000000) (to_micros b - ob * 1000000)))))"

definition dt_add :: "datetime \<Rightarrow> int \<Rightarrow> error + datetime" where
  \<comment> \<open>\<^verbatim>\<open>dt + timedelta(microseconds=us)\<close>: wall-clock arithmetic, tzinfo kept\<close>
  "dt_add d us = of_micros (to_micros d + us) (tzinfo d)"

definition localize :: "datetime \<Rightarrow> datetime" where
  \<comment> \<open>\<^verbatim>\<open>if dt.tzinfo is None: dt = dt.replace(tzinfo=USER_TZ)\<close>\<close>
  "localize d = (if tzinfo d = None then d\<lparr>tzinfo := Some USER_TZ\<rparr> else d)"

definition astimezone_utc :: "zone \<Rightarrow> datetime \<Rightarrow> error + datetime" where
  \<comment> \<open>\<^verbatim>\<open>dt.astimezone(tz.UTC)\<close>; a naive value is taken as system local time\<close>
  "astimezone_utc zone d =
     (if tzinfo d = Some UTC then Inr d
      else
        (case utcoffset zone d of
           None \<Rightarrow> of_micros (to_micros d - zone d * 1000000) (Some UTC)
         | Some off \<Rightarrow> of_micros (to_micros d - off * 1000000) (Some UTC)))"

section \<open>ISO-8601 text: \<open>isoformat\<close> and \<open>fromisoformat\<close>\<close>

definition digit :: "nat \<Rightarrow> char" where
  "digit n = char_of (48 + n)"

fun zpad :: "nat \<Rightarrow> nat \<Rightarrow> string" where
  \<comment> \<open>\<^verbatim>\<open>"%0wd" % n\<close> for \<open>n < 10 ^ w\<close>\<close>
  "zpad 0 n = []"
| "zpad (Suc w) n = zpad w (n div 10) @ [digit (n mod 10)]"

definition format_offset :: "int \<Rightarrow> string" where
  "format_offset off =
     (let a = nat \<bar>off\<bar> in
        (if off < 0 then ''-'' else ''+'') @ zpad 2 (a div 3600) @ '':'' @ zpad 2 (a mod 3600 div 60)
        @ (if a mod 60 \<noteq> 0 then '':'' @ zpad 2 (a mod 60) else []))"

definition frac :: "nat \<Rightarrow> string" where
  \<comment> \<open>the fraction of a second: written only when it is not zero\<close>
  "frac us = (if us \<noteq> 0 then ''.'' @ zpad 6 us else [])"

definition iso_text :: "int option \<Rightarrow> datetime \<Rightarrow> string" where
  \<comment> \<open>the text of \<^verbatim>\<open>isoformat()\<close> for a datetime whose \<^verbatim>\<open>utcoffset()\<close> is \<open>off\<close>\<close>
  "iso_text off d =
     zpad 4 (year d) @ ''-'' @ zpad 2 (month d) @ ''-'' @ zpad 2 (day d) @ ''T''
     @ zpad 2 (hour d) @ '':'' @ zpad 2 (minute d) @ '':'' @ zpad 2 (second d)
     @ frac (microsecond d)
     @ (case off of None \<Rightarrow> [] | Some k \<Rightarrow> format_offset k)"

definition isoformat :: "zone \<Rightarrow> datetime \<Rightarrow> string" where
  "isoformat zone d = iso_text (utcoffset zone d) d"

definition is_digit :: "char \<Rightarrow> bool" where
  "is_digit c = (48 \<le> (of_char c :: nat) \<and> (of_char c :: nat) \<le> 57)"

definition digit_val :: "char \<Rightarrow> nat option" where
  "digit_val c = (if is_digit c then Some (of_char c - 48) else None)"

fun parse_digits :: "nat \<Rightarrow> string \<Rightarrow> nat option" where
  "parse_digits acc [] = Some acc"
| "parse_digits acc (c # cs) =
     (case digit_val c of None \<Rightarrow> None | Some v \<Rightarrow> parse_digits (acc * 10 + v) cs)"

definition int_of :: "string \<Rightarrow> nat option" where
  \<comment> \<open>\<^verbatim>\<open>int(s)\<close> on a field of decimal digits\<close>
  "int_of s = (if s = [] then None else parse_digits 0 s)"

definition parse_isoformat_date :: "string \<Rightarrow> (nat \<times> nat \<times> nat) option" where
  "parse_isoformat_date s =
     (if length s = 10 \<and> s ! 4 = CHR ''-'' \<and> s ! 7 = CHR ''-'' then
        (case int_of (take 4 s) of None \<Rightarrow> None | Some y \<Rightarrow>
         case int_of (take 2 (drop 5 s)) of None \<Rightarrow> None | Some m \<Rightarrow>
         case int_of (drop 8 s) of None \<Rightarrow> None | Some d \<Rightarrow> Some (y, m, d))
      else None)"

definition parse_fraction :: "string \<Rightarrow> nat option" where
  \<comment> \<open>what follows \<^verbatim>\<open>HH:MM:SS\<close>: nothing, \<^verbatim>\<open>.fff\<close> or \<^verbatim>\<open>.ffffff\<close>\<close>
  "parse_fraction s =
     (if s = [] then Some 0
      else if hd s = CHR ''.'' \<and> length s = 4 then map_option (\<lambda>v. v * 1000) (int_of (tl s))
      else if hd s = CHR ''.'' \<and> length s = 7 then int_of (tl s)
      else None)"

definition parse_hh_mm_ss_ff :: "string \<Rightarrow> (nat \<times> nat \<times> nat \<times> nat) option" where
  \<comment> \<open>\<^verbatim>\<open>HH[:MM[:SS[.fff[fff]]]]\<close>\<close>
  "parse_hh_mm_ss_ff t =
     (if length t = 2 then map_option (\<lambda>h. (h, 0, 0, 0)) (int_of t)
      else if length t = 5 \<and> t ! 2 = CHR '':'' then
        (case int_of (take 2 t) of None \<Rightarrow> None | Some h \<Rightarrow>
         case int_of (drop 3 t) of None \<Rightarrow> None | Some m \<Rightarrow> Some (h, m, 0, 0))
      else if 8 \<le> length t \<and> t ! 2 = CHR '':'' \<and> t ! 5 = CHR '':'' then
        (case int_of (take 2 t) of None \<Rightarrow> None | Some h \<Rightarrow>
         case int_of (take 2 (drop 3 t)) of None \<Rightarrow> None | Some m \<Rightarrow>
         case int_of (take 2 (drop 6 t)) of None \<Rightarrow> None | Some s \<Rightarrow>
         case parse_fraction (drop 8 t) of None \<Rightarrow> None | Some us \<Rightarrow> Some (h, m, s, us))
      else None)"

definition split_tz :: "string \<Rightarrow> string \<times> (bool \<times> string) option" where
  \<comment> \<open>cut the time text at its first \<^verbatim>\<open>-\<close>, or else at its first \<^verbatim>\<open>+\<close>; the flag says
      that the sign is negative\<close>
  "split_tz t =
     (if CHR ''-'' \<in> set t then
        (takeWhile (\<lambda>c. c \<noteq> CHR ''-'') t,
         Some (True, tl (dropWhile (\<lambda>c. c \<noteq> CHR ''-'') t)))
      else if CHR ''+'' \<in> set t then
        (takeWhile (\<lambda>c. c \<noteq> CHR ''+'') t,
         Some (False, tl (dropWhile (\<lambda>c. c \<noteq> CHR ''+'') t)))
      else (t, None))"

definition parse_tz :: "(bool \<times> string) option \<Rightarrow> tzinfo option option" where
  \<comment> \<open>the offset after the sign: \<^verbatim>\<open>HH:MM\<close>, \<^verbatim>\<open>HH:MM:SS\<close> or \<^verbatim>\<open>HH:MM:SS.ffffff\<close>, strictly less
      than a day; the sub-second part of an offset is not kept\<close>
  "parse_tz z =
     (case z of
        None \<Rightarrow> Some None
      | Some (neg, s) \<Rightarrow>
          if length s = 5 \<or> length s = 8 \<or> length s = 15 then
            (case parse_hh_mm_ss_ff s of
               None \<Rightarrow> None
             | Some (h, m, sec, us) \<Rightarrow>
                 if ((h * 60 + m) * 60 + sec) * 1000000 + us < 86400000000 then
                   Some (Some (FixedOffset
                     ((if neg then - 1 else 1) * int ((h * 60 + m) * 60 + sec))))
                 else None)
          else None)"

definition parse_isoformat_time :: "string \<Rightarrow> (nat \<times> nat \<times> nat \<times> nat \<times> tzinfo option) option" where
  "parse_isoformat_time t =
     (if length t < 2 then None
      else
        (case split_tz t of (timestr, z) \<Rightarrow>
         case parse_hh_mm_ss_ff timestr of None \<Rightarrow> None | Some (h, m, s, us) \<Rightarrow>
         case parse_tz z of None \<Rightarrow> None | Some tzi \<Rightarrow> Some (h, m, s, us, tzi)))"

definition fromisoformat :: "string \<Rightarrow> datetime option" where
  \<comment> \<open>\<^verbatim>\<open>datetime.fromisoformat\<close> on the texts that \<^verbatim>\<open>isoformat\<close> writes:
      \<^verbatim>\<open>YYYY-MM-DD[*HH[:MM[:SS[.fff[fff]]]][+HH:MM[:SS[.ffffff]]]]\<close>; \<open>None\<close> is \<^verbatim>\<open>ValueError\<close>\<close>
  "fromisoformat s =
     (case parse_isoformat_date (take 10 s) of
        None \<Rightarrow> None
      | Some (y, m, d) \<Rightarrow>
          (case (if drop 11 s = [] then Some (0, 0, 0, 0, None) else parse_isoformat_time (drop 11 s)) of
             None \<Rightarrow> None
           | Some (h, mi, sec, us, tzi) \<Rightarrow>
               (let r = \<lparr>year = y, month = m, day = d, hour = h, minute = mi, second = sec,
                         microsecond = us, tzinfo = tzi\<rparr>
                in if valid_datetime r then Some r else None)))"

section \<open>The reminder table, the scheduler and the notifier\<close>

text \<open>
  \<^verbatim>\<open>Reminder\<close> is the dataclass of the source (\<open>rid\<close> and \<open>rtext\<close> are its fields
  \<^verbatim>\<open>id\<close> and \<^verbatim>\<open>text\<close>). A \<open>row\<close> is a row of the SQLite table \<^verbatim>\<open>reminders\<close>, whose two
  time columns are \<^verbatim>\<open>TEXT\<close>. The table is kept in rowid order together with the counter that
  \<^verbatim>\<open>AUTOINCREMENT\<close> keeps in \<^verbatim>\<open>sqlite_sequence\<close>.
\<close>

record Reminder =
  rid :: int
  rtext :: string
  when_utc :: datetime
  created_utc :: datetime

record row =
  col_id :: int
  col_text :: string
  col_when_utc :: string
  col_created_utc :: string

record db =
  rows :: "row list"
  seq :: int

text \<open>
  The job store of the \<^verbatim>\<open>BackgroundScheduler\<close> maps job ids to pending jobs;
  \<open>ReminderJob n\<close> stands for the id string \<^verbatim>\<open>f"reminder_{n}"\<close>. The trace lists, in order,
  the statements run on the connection, the calls made to the scheduler, the jobs the
  scheduler ran and the texts given to the speech engine.
\<close>

datatype job_id = ReminderJob int

record job =
  run_date :: datetime
  args :: "int \<times> string"

datatype event =
  SqlInsert int | SqlDelete int | SqlCommit
  | AddJob job_id | RemoveJob job_id | RunJob job_id | Say string

text \<open>
  What the storage layer does during one operation is an input: every statement succeeds,
  \<^verbatim>\<open>execute\<close> raises, or \<^verbatim>\<open>commit\<close> raises (leaving the transaction open, or rolled back by
  SQLite).
\<close>

datatype fault = NoFault | ExecuteFails | CommitFails | CommitFailsRollback

record ReminderManager =
  conn :: db
  disk :: db
  jobs :: "job_id \<rightharpoonup> job"
  trace :: "event list"

definition is_space :: "char \<Rightarrow> bool" where
  \<comment> \<open>ASCII white space, as \<^verbatim>\<open>str.strip\<close> sees it\<close>
  "is_space c = (let n = (of_char c :: nat) in (9 \<le> n \<and> n \<le> 13) \<or> (28 \<le> n \<and> n \<le> 32))"

definition strip :: "string \<Rightarrow> string" where
  "strip s = rev (dropWhile is_space (rev (dropWhile is_space s)))"

definition say :: "string \<Rightarrow> ReminderManager \<Rightarrow> ReminderManager" where
  \<comment> \<open>\<^verbatim>\<open>TTS.say\<close>: the stripped text is printed and spoken\<close>
  "say s st = st\<lparr>trace := trace st @ [Say (strip s)]\<rparr>"

definition alert :: "int \<Rightarrow> string \<Rightarrow> ReminderManager \<Rightarrow> ReminderManager" where
  \<comment> \<open>\<^verbatim>\<open>ReminderManager._alert\<close>\<close>
  "alert reminder_id s st = say (''Reminder: '' @ s) st"

definition schedule_job :: "Reminder \<Rightarrow> ReminderManager \<Rightarrow> ReminderManager" where
  \<comment> \<open>\<^verbatim>\<open>ReminderManager._schedule_job\<close>: \<^verbatim>\<open>add_job(..., replace_existing=True)\<close>\<close>
  "schedule_job r st =
     st\<lparr>jobs := (jobs st)(ReminderJob (rid r) \<mapsto> \<lparr>run_date = when_utc r, args = (rid r, rtext r)\<rparr>),
        trace := trace st @ [AddJob (ReminderJob (rid r))]\<rparr>"

definition remove_job :: "job_id \<Rightarrow> ReminderManager \<Rightarrow> (error + unit) \<times> ReminderManager" where
  \<comment> \<open>\<^verbatim>\<open>scheduler.remove_job\<close>: raises \<^verbatim>\<open>JobLookupError\<close> when there is no such job\<close>
  "remove_job j st =
     (case jobs st j of
        None \<Rightarrow> (Inl JobLookupError, st\<lparr>trace := trace st @ [RemoveJob j]\<rparr>)
      | Some _ \<Rightarrow> (Inr (), st\<lparr>jobs := (jobs st)(j := None), trace := trace st @ [RemoveJob j]\<rparr>))"

definition run_job :: "job_id \<Rightarrow> ReminderManager \<Rightarrow> ReminderManager" where
  \<comment> \<open>the scheduler runs a pending job: a \<^verbatim>\<open>DateTrigger\<close> job is dropped and its callback
      \<^verbatim>\<open>_alert(*args)\<close> is called; a job that is not pending cannot run\<close>
  "run_job j st =
     (case jobs st j of
        None \<Rightarrow> st
      | Some jb \<Rightarrow>
          alert (fst (args jb)) (snd (args jb))
            (st\<lparr>jobs := (jobs st)(j := None), trace := trace st @ [RunJob j]\<rparr>))"

definition next_rowid :: "db \<Rightarrow> int" where
  \<comment> \<open>\<^verbatim>\<open>INTEGER PRIMARY KEY AUTOINCREMENT\<close>: one more than the largest rowid the table holds
      or has ever held\<close>
  "next_rowid d = max (fold max (map col_id (rows d)) 0) (seq d) + 1"

definition commit :: "fault \<Rightarrow> ReminderManager \<Rightarrow> (error + unit) \<times> ReminderManager" where
  \<comment> \<open>\<^verbatim>\<open>self.conn.commit()\<close>\<close>
  "commit f st =
     (if f = CommitFails then (Inl StorageError, st)
      else if f = CommitFailsRollback then (Inl StorageError, st\<lparr>conn := disk st\<rparr>)
      else (Inr (), st\<lparr>disk := conn st, trace := trace st @ [SqlCommit]\<rparr>))"

definition insert_row :: "string \<Rightarrow> string \<Rightarrow> string \<Rightarrow> db \<Rightarrow> db" where
  "insert_row t w c d =
     \<lparr>rows = rows d @ [\<lparr>col_id = next_rowid d, col_text = t, col_when_utc = w,
                          col_created_utc = c\<rparr>],
      seq = next_rowid d\<rparr>"

definition execute_insert ::
  "fault \<Rightarrow> string \<Rightarrow> string \<Rightarrow> string \<Rightarrow> ReminderManager \<Rightarrow> (error + int) \<times> ReminderManager" where
  \<comment> \<open>\<^verbatim>\<open>INSERT INTO reminders (text, when_utc, created_utc) VALUES (?, ?, ?)\<close>; the result is
      \<^verbatim>\<open>cur.lastrowid\<close>\<close>
  "execute_insert f t w c st =
     (if f = ExecuteFails then (Inl StorageError, st)
      else
        (Inr (next_rowid (conn st)),
         st\<lparr>conn := insert_row t w c (conn st),
            trace := trace st @ [SqlInsert (next_rowid (conn st))]\<rparr>))"

definition delete_row :: "int \<Rightarrow> db \<Rightarrow> db" where
  "delete_row n d = d\<lparr>rows := filter (\<lambda>r. col_id r \<noteq> n) (rows d)\<rparr>"

definition sqlite_int64 :: "int \<Rightarrow> bool" where
  \<comment> \<open>the integers that \<^verbatim>\<open>sqlite3\<close> binds to a statement parameter: SQLite's \<^verbatim>\<open>INTEGER\<close> is a
      signed 64-bit integer, and \<^verbatim>\<open>execute\<close> raises \<^verbatim>\<open>OverflowError\<close> on any other Python int\<close>
  "sqlite_int64 n = (- 9223372036854775808 \<le> n \<and> n \<le> 9223372036854775807)"

definition execute_delete ::
  "fault \<Rightarrow> int \<Rightarrow> ReminderManager \<Rightarrow> (error + nat) \<times> ReminderManager" where
  \<comment> \<open>\<^verbatim>\<open>DELETE FROM reminders WHERE id = ?\<close> with \<^verbatim>\<open>(rid,)\<close>; the result is \<^verbatim>\<open>cur.rowcount\<close>. The
      parameter is bound before the statement runs, so an id outside the signed 64-bit
      range raises \<^verbatim>\<open>OverflowError\<close> and nothing is executed\<close>
  "execute_delete f n st =
     (if \<not> sqlite_int64 n then (Inl OverflowError, st)
      else if f = ExecuteFails then (Inl StorageError, st)
      else
        (Inr (length (filter (\<lambda>r. col_id r = n) (rows (conn st)))),
         st\<lparr>conn := delete_row n (conn st), trace := trace st @ [SqlDelete n]\<rparr>))"

definition canonical :: "string \<Rightarrow> bool" where
  \<comment> \<open>a text that \<^verbatim>\<open>isoformat()\<close> writes for a datetime in UTC\<close>
  "canonical s = (case fromisoformat s of None \<Rightarrow> False | Some d \<Rightarrow> iso_text (Some 0) d = s)"

definition keys_ok :: "db \<Rightarrow> bool" where
  \<comment> \<open>what SQLite keeps of an \<^verbatim>\<open>AUTOINCREMENT\<close> table: \<^verbatim>\<open>id\<close> is a primary key, and no rowid
      exceeds the counter in \<^verbatim>\<open>sqlite_sequence\<close>\<close>
  "keys_ok d = (distinct (map col_id (rows d)) \<and> (\<forall>r \<in> set (rows d). col_id r \<le> seq d))"

definition wf_db :: "db \<Rightarrow> bool" where
  \<comment> \<open>the table as SQLite and \<^verbatim>\<open>add_reminder\<close> keep it: the keys are in order and both time
      columns were written by \<^verbatim>\<open>isoformat()\<close> in UTC\<close>
  "wf_db d =
     (keys_ok d \<and>
      (\<forall>r \<in> set (rows d). canonical (col_when_utc r) \<and> canonical (col_created_utc r)))"

section \<open>\<open>ReminderManager\<close>\<close>

definition add_reminder ::
  "zone \<Rightarrow> fault \<Rightarrow> datetime \<Rightarrow> string \<Rightarrow> datetime \<Rightarrow> ReminderManager
     \<Rightarrow> (error + Reminder) \<times> ReminderManager" where
  \<comment> \<open>\<open>utcnow\<close> is what \<^verbatim>\<open>datetime.utcnow()\<close> returns during the call\<close>
  "add_reminder zone f utcnow t when_local st =
     (case astimezone_utc zone (localize when_local) of
        Inl e \<Rightarrow> (Inl e, st)
      | Inr w \<Rightarrow>
          (let c = utcnow\<lparr>tzinfo := Some UTC\<rparr>
           in case execute_insert f t (isoformat zone w) (isoformat zone c) st of
                (Inl e, st1) \<Rightarrow> (Inl e, st1)
              | (Inr n, st1) \<Rightarrow>
                  (case commit f st1 of
                     (Inl e, st2) \<Rightarrow> (Inl e, st2)
                   | (Inr _, st2) \<Rightarrow>
                       (let r = \<lparr>rid = n, rtext = t, when_utc = w, created_utc = c\<rparr>
                        in (Inr r, schedule_job r st2)))))"

definition row_reminder :: "row \<Rightarrow> error + Reminder" where
  \<comment> \<open>the \<^verbatim>\<open>Reminder(...)\<close> that \<^verbatim>\<open>list_reminders\<close> builds from one fetched row\<close>
  "row_reminder r =
     (case fromisoformat (col_when_utc r) of
        None \<Rightarrow> Inl ValueError
      | Some w \<Rightarrow>
          (case fromisoformat (col_created_utc r) of
             None \<Rightarrow> Inl ValueError
           | Some c \<Rightarrow>
               Inr \<lparr>rid = col_id r, rtext = col_text r, when_utc = w\<lparr>tzinfo := Some UTC\<rparr>,
                    created_utc = c\<lparr>tzinfo := Some UTC\<rparr>\<rparr>))"

fun fetch_reminders :: "row list \<Rightarrow> Reminder list \<Rightarrow> error + Reminder list" where
  \<comment> \<open>the loop of \<^verbatim>\<open>list_reminders\<close> over \<^verbatim>\<open>cur.fetchall()\<close>\<close>
  "fetch_reminders [] res = Inr res"
| "fetch_reminders (r # rs) res =
     (case row_reminder r of Inl e \<Rightarrow> Inl e | Inr x \<Rightarrow> fetch_reminders rs (res @ [x]))"

definition list_reminders :: "fault \<Rightarrow> ReminderManager \<Rightarrow> error + Reminder list" where
  \<comment> \<open>\<^verbatim>\<open>SELECT ... ORDER BY when_utc ASC\<close> sorts the \<^verbatim>\<open>TEXT\<close> column bytewise\<close>
  "list_reminders f st =
     (if f = ExecuteFails then Inl StorageError
      else fetch_reminders (sort_key col_when_utc (rows (conn st))) [])"

definition delete_reminder ::
  "fault \<Rightarrow> int \<Rightarrow> ReminderManager \<Rightarrow> (error + bool) \<times> ReminderManager" where
  \<comment> \<open>an exception of \<^verbatim>\<open>execute\<close> (also the \<^verbatim>\<open>OverflowError\<close> on an id that is no signed 64-bit
      integer) or of \<^verbatim>\<open>commit\<close> leaves the method at once; only \<^verbatim>\<open>remove_job\<close> is inside
      \<^verbatim>\<open>try\<close>/\<^verbatim>\<open>except\<close>\<close>
  "delete_reminder f n st =
     (case execute_delete f n st of
        (Inl e, st1) \<Rightarrow> (Inl e, st1)
      | (Inr rowcount, st1) \<Rightarrow>
          (case commit f st1 of
             (Inl e, st2) \<Rightarrow> (Inl e, st2)
           | (Inr _, st2) \<Rightarrow>
               (case remove_job (ReminderJob n) st2 of
                  (_, st3) \<Rightarrow> (Inr (0 < rowcount), st3))))"

fun reschedule_rows ::
  "zone \<Rightarrow> datetime \<Rightarrow> row list \<Rightarrow> ReminderManager \<Rightarrow> error + ReminderManager" where
  \<comment> \<open>the loop of \<^verbatim>\<open>_reschedule_existing\<close>; the creation time is parsed only for a row that
      is scheduled\<close>
  "reschedule_rows zone now_utc [] st = Inr st"
| "reschedule_rows zone now_utc (r # rs) st =
     (case fromisoformat (col_when_utc r) of
        None \<Rightarrow> Inl ValueError
      | Some w0 \<Rightarrow>
          (let w = w0\<lparr>tzinfo := Some UTC\<rparr>
           in case dt_cmp zone w now_utc of
                Inl e \<Rightarrow> Inl e
              | Inr k \<Rightarrow>
                  if 0 < k then
                    (case fromisoformat (col_created_utc r) of
                       None \<Rightarrow> Inl ValueError
                     | Some c \<Rightarrow>
                         reschedule_rows zone now_utc rs
                           (schedule_job \<lparr>rid = col_id r, rtext = col_text r, when_utc = w,
                                           created_utc = c\<lparr>tzinfo := Some UTC\<rparr>\<rparr> st))
                  else reschedule_rows zone now_utc rs st))"

definition reschedule_existing ::
  "zone \<Rightarrow> fault \<Rightarrow> datetime \<Rightarrow> ReminderManager \<Rightarrow> error + ReminderManager" where
  \<comment> \<open>\<^verbatim>\<open>ReminderManager._reschedule_existing\<close>; \<^verbatim>\<open>SELECT\<close> without \<^verbatim>\<open>ORDER BY\<close> reads the
      table in rowid order\<close>
  "reschedule_existing zone f utcnow st =
     (if f = ExecuteFails then Inl StorageError
      else reschedule_rows zone (utcnow\<lparr>tzinfo := Some UTC\<rparr>) (rows (conn st)) st)"

definition init :: "zone \<Rightarrow> fault \<Rightarrow> datetime \<Rightarrow> db \<Rightarrow> error + ReminderManager" where
  \<comment> \<open>\<^verbatim>\<open>ReminderManager.__init__\<close> on the database file \<open>d\<close>: connect,
      \<^verbatim>\<open>CREATE TABLE IF NOT EXISTS\<close>, commit, a fresh scheduler, then recovery\<close>
  "init zone f utcnow d =
     (if f \<noteq> NoFault then Inl StorageError
      else reschedule_existing zone f utcnow
             \<lparr>conn = d, disk = d, jobs = Map.empty, trace = [SqlCommit]\<rparr>)"

section \<open>Resolving a clock time and the reminder command\<close>

type_synonym parser = "string \<Rightarrow> datetime \<Rightarrow> error + datetime"

definition parse_time_local :: "parser \<Rightarrow> zone \<Rightarrow> datetime \<Rightarrow> string \<Rightarrow> datetime option" where
  \<comment> \<open>\<open>parse\<close> is \<^verbatim>\<open>dtparser.parse(text_time, default=now)\<close> and \<open>now\<close> is
      \<^verbatim>\<open>datetime.now(tz=USER_TZ)\<close>; every exception ends in \<^verbatim>\<open>return None\<close>\<close>
  "parse_time_local parse zone now text_time =
     (case parse text_time now of
        Inl e \<Rightarrow> None
      | Inr dt0 \<Rightarrow>
          (let dt = localize dt0
           in case dt_cmp zone dt now of
                Inl e \<Rightarrow> None
              | Inr k \<Rightarrow>
                  if k \<le> 0 then
                    (case dt_add dt US_PER_DAY of Inl e \<Rightarrow> None | Inr dt' \<Rightarrow> Some dt')
                  else Some dt))"

definition strftime_I_M_p :: "datetime \<Rightarrow> string" where
  \<comment> \<open>\<^verbatim>\<open>strftime('%I:%M %p')\<close>\<close>
  "strftime_I_M_p d =
     zpad 2 (if hour d mod 12 = 0 then 12 else hour d mod 12) @ '':'' @ zpad 2 (minute d)
     @ (if hour d < 12 then '' AM'' else '' PM'')"

definition sorry_time :: string where
  "sorry_time = ''Sorry, I couldn'' @ [CHR 0x27] @ ''t understand the time.''"

definition handle_reminder_at ::
  "parser \<Rightarrow> zone \<Rightarrow> fault \<Rightarrow> datetime \<Rightarrow> datetime \<Rightarrow> string \<Rightarrow> string \<Rightarrow> ReminderManager
     \<Rightarrow> (error + bool) \<times> ReminderManager" where
  \<comment> \<open>the branch of \<^verbatim>\<open>Assistant.handle\<close> taken once \<^verbatim>\<open>REMIND_AT_RE\<close> or
      \<^verbatim>\<open>REMIND_SIMPLE_RE\<close> has given the stripped groups \<open>task\<close> and \<open>time_text\<close>\<close>
  "handle_reminder_at parse zone f now utcnow task time_text st =
     (case parse_time_local parse zone now time_text of
        Some w \<Rightarrow>
          (case add_reminder zone f utcnow task w st of
             (Inl e, st1) \<Rightarrow> (Inl e, st1)
           | (Inr r, st1) \<Rightarrow>
               (Inr True,
                say (''Reminder set for '' @ strftime_I_M_p w @ '' to '' @ task @ ''.'') st1))
      | None \<Rightarrow> (Inr True, say sorry_time st))"

section \<open>Runs of the subsystem\<close>

text \<open>
  A run is a sequence of calls of \<^verbatim>\<open>add_reminder\<close> and \<^verbatim>\<open>delete_reminder\<close> by the caller,
  interleaved with jobs that the scheduler runs; \<open>run_ops\<close> returns the ids of the reminders
  that were created, in the order of their creation.
\<close>

datatype op = Add fault datetime string datetime | Delete fault int | Run job_id

fun step :: "zone \<Rightarrow> op \<Rightarrow> ReminderManager \<Rightarrow> int option \<times> ReminderManager" where
  "step zone (Add f utcnow t w) st =
     (case add_reminder zone f utcnow t w st of
        (Inl e, st') \<Rightarrow> (None, st')
      | (Inr r, st') \<Rightarrow> (Some (rid r), st'))"
| "step zone (Delete f n) st = (None, snd (delete_reminder f n st))"
| "step zone (Run j) st = (None, run_job j st)"

fun run_ops :: "zone \<Rightarrow> op list \<Rightarrow> ReminderManager \<Rightarrow> int list \<times> ReminderManager" where
  "run_ops zone [] st = ([], st)"
| "run_ops zone (x # xs) st =
     (case step zone x st of
        (i, st') \<Rightarrow>
          (case run_ops zone xs st' of
             (is, st'') \<Rightarrow> ((case i of None \<Rightarrow> is | Some n \<Rightarrow> n # is), st'')))"

definition seq_ge :: "int \<Rightarrow> ReminderManager \<Rightarrow> bool" where
  \<comment> \<open>the keys of the connection and of the file are in order, and both sequence counters
      have reached \<open>b\<close>\<close>
  "seq_ge b st =
     (keys_ok (conn st) \<and> keys_ok (disk st) \<and> b \<le> seq (conn st) \<and> b \<le> seq (disk st))"

section \<open>Concrete inputs\<close>

text \<open>
  A local zone five and a half hours east of UTC, the evening of 9 March 2025 as the clock
  reads it in that zone and in UTC, the same day at 23:00 local time and the next day at
  21:00, a parser standing for \<^verbatim>\<open>dateutil\<close> on texts of the form
  \<^verbatim>\<open>HH:MM\<close> (it replaces the hour and the minute of the default and keeps the rest, as
  \<^verbatim>\<open>dateutil\<close> does), an empty database and a database with one reminder in the past and one
  in the future.
\<close>

definition zone_0530 :: zone where
  "zone_0530 d = 19800"

definition now_local :: datetime where
  "now_local = \<lparr>year = 2025, month = 3, day = 9, hour = 22, minute = 0, second = 0,
                 microsecond = 0, tzinfo = Some USER_TZ\<rparr>"

definition at_2300 :: datetime where
  "at_2300 = now_local\<lparr>hour := 23\<rparr>"

definition at_2300_utc :: datetime where
  "at_2300_utc = \<lparr>year = 2025, month = 3, day = 9, hour = 17, minute = 30, second = 0,
                   microsecond = 0, tzinfo = Some UTC\<rparr>"

definition tomorrow_2100 :: datetime where
  "tomorrow_2100 = \<lparr>year = 2025, month = 3, day = 10, hour = 21, minute = 0, second = 0,
                     microsecond = 0, tzinfo = Some USER_TZ\<rparr>"

definition utc_now :: datetime where
  "utc_now = \<lparr>year = 2025, month = 3, day = 9, hour = 16, minute = 30, second = 0,
               microsecond = 0, tzinfo = None\<rparr>"

definition parse_clock :: parser where
  "parse_clock s dflt =
     (if length s = 5 then
        (case parse_hh_mm_ss_ff s of
           None \<Rightarrow> Inl ParserError
         | Some (h, m, _, _) \<Rightarrow>
             if h < 24 \<and> m < 60 then Inr (dflt\<lparr>hour := h, minute := m\<rparr>) else Inl ParserError)
      else Inl ParserError)"

definition db_empty :: db where
  "db_empty = \<lparr>rows = [], seq = 0\<rparr>"

definition st_empty :: ReminderManager where
  "st_empty = \<lparr>conn = db_empty, disk = db_empty, jobs = Map.empty, trace = []\<rparr>"

definition row_past :: row where
  "row_past = \<lparr>col_id = 1, col_text = ''stretch'',
               col_when_utc = ''2025-03-09T09:15:00+00:00'',
               col_created_utc = ''2025-03-08T20:00:00.250000+00:00''\<rparr>"

definition row_future :: row where
  "row_future = \<lparr>col_id = 2, col_text = ''call mom'',
                 col_when_utc = ''2025-03-09T17:30:00+00:00'',
                 col_created_utc = ''2025-03-08T20:00:00.250000+00:00''\<rparr>"

definition db_two :: db where
  "db_two = \<lparr>rows = [row_past, row_future], seq = 2\<rparr>"

definition past_utc :: datetime where
  "past_utc = \<lparr>year = 2025, month = 3, day = 9, hour = 9, minute = 15, second = 0,
                microsecond = 0, tzinfo = Some UTC\<rparr>"

definition created_utc_0 :: datetime where
  "created_utc_0 = \<lparr>year = 2025, month = 3, day = 8, hour = 20, minute = 0, second = 0,
                     microsecond = 250000, tzinfo = Some UTC\<rparr>"

definition st_two :: ReminderManager where
  "st_two = \<lparr>conn = db_two, disk = db_two, jobs = Map.empty, trace = []\<rparr>"

section \<open>Lemmas: calendar arithmetic\<close>

lemma div100_le_div4: "(p::nat) div 100 \<le> p div 4"
  by (rule div_le_mono2) simp_all

lemma dvd_100_4: "(100::nat) dvd n \<Longrightarrow> 4 dvd n"
  using dvd_trans [of 4 100 n] by simp

lemma dvd_400_100: "(400::nat) dvd n \<Longrightarrow> 100 dvd n"
  using dvd_trans [of 100 400 n] by simp

lemma is_leap_dvd: "is_leap y = (4 dvd y \<and> (\<not> 100 dvd y \<or> 400 dvd y))"
  unfolding is_leap_def by (simp only: mod_eq_0_iff_dvd)

lemma leap_indicator:
  "(if is_leap y then 366 else 365) =
     365 + (if 4 dvd y then 1 else 0) + (if 400 dvd y then 1 else 0) - (if 100 dvd y then 1 else (0::nat))"
proof (cases "400 dvd y")
  case True
  then have "100 dvd y" by (rule dvd_400_100)
  then have "4 dvd y" by (rule dvd_100_4)
  with True \<open>100 dvd y\<close> show ?thesis unfolding is_leap_dvd by simp
next
  case F: False
  show ?thesis
  proof (cases "100 dvd y")
    case True
    then have "4 dvd y" by (rule dvd_100_4)
    with True F show ?thesis unfolding is_leap_dvd by simp
  next
    case False
    with F show ?thesis unfolding is_leap_dvd by simp
  qed
qed

lemma leap_sum:
  fixes a b c i j k p :: nat
  assumes "b \<le> a" "j \<le> i" "k \<le> j"
  shows "Suc p * 365 + (a + i) - (b + j) + (c + k) = p * 365 + a - b + c + (365 + i + k - j)"
  using assms by simp

lemma Suc_div_dvd: "0 < n \<Longrightarrow> Suc p div n = p div n + (if n dvd Suc p then 1 else 0)"
  by (simp add: div_Suc mod_eq_0_iff_dvd)

lemma days_before_year_Suc:
  assumes "1 \<le> y"
  shows "days_before_year (Suc y) = days_before_year y + (if is_leap y then 366 else 365)"
proof -
  from assms obtain p where y: "y = Suc p" by (cases y) auto
  define a b c where "a = p div 4" and "b = p div 100" and "c = p div 400"
  define i j k :: nat where "i = (if 4 dvd Suc p then 1 else 0)"
    and "j = (if 100 dvd Suc p then 1 else 0)" and "k = (if 400 dvd Suc p then 1 else 0)"
  have le: "b \<le> a" unfolding a_def b_def by (rule div100_le_div4)
  have ji: "j \<le> i"
  proof (cases "100 dvd Suc p")
    case True
    then have "4 dvd Suc p" by (rule dvd_100_4)
    with True show ?thesis by (simp only: i_def j_def if_True le_refl)
  next
    case False
    then show ?thesis by (simp only: j_def if_False le0)
  qed
  have kj: "k \<le> j"
  proof (cases "400 dvd Suc p")
    case True
    then have "100 dvd Suc p" by (rule dvd_400_100)
    with True show ?thesis by (simp only: k_def j_def if_True le_refl)
  next
    case False
    then show ?thesis by (simp only: k_def if_False le0)
  qed
  have s4: "Suc p div 4 = a + i" unfolding a_def i_def by (rule Suc_div_dvd) simp
  have s100: "Suc p div 100 = b + j" unfolding b_def j_def by (rule Suc_div_dvd) simp
  have s400: "Suc p div 400 = c + k" unfolding c_def k_def by (rule Suc_div_dvd) simp
  have leap: "(if is_leap y then 366 else 365) = 365 + i + k - j"
    unfolding y i_def j_def k_def by (rule leap_indicator)
  have e1: "days_before_year (Suc y) = Suc p * 365 + Suc p div 4 - Suc p div 100 + Suc p div 400"
    unfolding y by (simp only: days_before_year_def diff_Suc_1)
  have e0: "days_before_year y = p * 365 + a - b + c"
    unfolding y a_def b_def c_def by (simp only: days_before_year_def diff_Suc_1)
  show ?thesis
    unfolding e1 e0 leap s4 s100 s400 using le ji kj by (rule leap_sum)
qed

lemma days_before_year_1: "days_before_year (Suc 0) = 0"
  by (simp add: days_before_year_def)

lemma days_before_year_step: "1 \<le> y \<Longrightarrow> days_before_year y + 365 \<le> days_before_year (Suc y)"
  by (simp only: days_before_year_Suc split: if_splits) simp

lemma days_before_year_step': "1 \<le> y \<Longrightarrow> days_before_year (Suc y) \<le> days_before_year y + 366"
  by (simp only: days_before_year_Suc split: if_splits) simp


lemma days_before_year_mono: "y \<le> z \<Longrightarrow> days_before_year y \<le> days_before_year z"
proof (induction z)
  case 0
  then show ?case by simp
next
  case (Suc z)
  show ?case
  proof (cases "y = Suc z")
    case True
    then show ?thesis by simp
  next
    case False
    with Suc.prems have yz: "y \<le> z" by simp
    show ?thesis
    proof (cases "z = 0")
      case True
      with yz show ?thesis by (simp add: days_before_year_def)
    next
      case False
      then have "days_before_year z \<le> days_before_year (Suc z)"
        using days_before_year_step [of z] by simp
      with Suc.IH [OF yz] show ?thesis by simp
    qed
  qed
qed

lemma estimate_aux:
  fixes a b c k n :: nat
  assumes "4 * a \<le> k" "400 * c \<le> k" "366 * k \<le> n" "1 \<le> n"
  shows "k * 365 + a - b + c < n"
  using assms by linarith

lemma year_estimate:
  assumes "1 \<le> n"
  shows "days_before_year (n div 366 + 1) < n"
proof -
  define k where "k = n div 366"
  have "4 * (k div 4) \<le> k" "400 * (k div 400) \<le> k" by simp_all
  moreover have "366 * k \<le> n" unfolding k_def by simp
  ultimately have "k * 365 + k div 4 - k div 100 + k div 400 < n"
    using assms by (rule estimate_aux)
  then show ?thesis
    unfolding k_def by (simp only: days_before_year_def add_diff_cancel_right')
qed

lemma find_year_spec:
  "days_before_year y < n \<Longrightarrow>
     y \<le> find_year n y \<and> days_before_year (find_year n y) < n \<and>
     n \<le> days_before_year (Suc (find_year n y))"
proof (induction n y rule: find_year.induct)
  case (1 n y)
  show ?case
  proof (cases "n \<le> days_before_year (Suc y)")
    case True
    with "1.prems" show ?thesis by (simp add: find_year.simps [of n y])
  next
    case False
    then have "days_before_year (Suc y) < n" by simp
    from "1.IH" [OF False this] False show ?thesis
      by (simp add: find_year.simps [of n y])
  qed
qed


lemma days_before_month_Suc:
  "1 \<le> m \<Longrightarrow> days_before_month y (Suc m) = days_before_month y m + days_in_month y m"
  by simp

lemma days_before_month_1: "days_before_month y (Suc 0) = 0"
  by simp

lemma days_in_month_bounds: "28 \<le> days_in_month y m" "days_in_month y m \<le> 31"
  by (simp_all add: days_in_month_def)

lemma days_before_month_13: "days_before_month y 13 = (if is_leap y then 366 else 365)"
  by (simp add: eval_nat_numeral days_in_month_def)

lemma days_before_month_mono:
  "1 \<le> m \<Longrightarrow> m < k \<Longrightarrow> days_before_month y m + days_in_month y m \<le> days_before_month y k"
proof (induction k)
  case 0
  then show ?case by simp
next
  case (Suc k)
  show ?case
  proof (cases "m = k")
    case True
    with Suc.prems show ?thesis by (simp only: days_before_month_Suc le_refl)
  next
    case False
    with Suc.prems have "m < k" by simp
    with Suc.IH Suc.prems have "days_before_month y m + days_in_month y m \<le> days_before_month y k"
      by simp
    moreover from \<open>m < k\<close> Suc.prems have "1 \<le> k" by simp
    ultimately show ?thesis by simp
  qed
qed

lemma find_month_spec:
  "1 \<le> m \<Longrightarrow> m \<le> 12 \<Longrightarrow> 1 \<le> r \<Longrightarrow>
   days_before_month y m + r \<le> days_before_month y 13 \<Longrightarrow>
   find_month y m r = (m', d) \<Longrightarrow>
     1 \<le> m' \<and> m' \<le> 12 \<and> 1 \<le> d \<and> d \<le> days_in_month y m' \<and>
     days_before_month y m' + d = days_before_month y m + r"
proof (induction y m r rule: find_month.induct)
  case (1 y m r)
  show ?case
  proof (cases "r \<le> days_in_month y m")
    case True
    with "1.prems" show ?thesis by (simp add: find_month.simps [of y m r])
  next
    case nle: False
    show ?thesis
    proof (cases "12 \<le> m")
      case True
      with "1.prems" have m: "m = 12" by simp
      have "days_before_month y 13 = days_before_month y 12 + days_in_month y 12"
        using days_before_month_Suc [of 12 y] by simp
      with "1.prems"(4) nle show ?thesis unfolding m by simp
    next
      case False
      with nle have c: "\<not> (r \<le> days_in_month y m \<or> 12 \<le> m)" by simp
      have eq: "days_before_month y (Suc m) + (r - days_in_month y m) = days_before_month y m + r"
        using nle "1.prems"(1) by simp
      have "1 \<le> m' \<and> m' \<le> 12 \<and> 1 \<le> d \<and> d \<le> days_in_month y m' \<and>
        days_before_month y m' + d = days_before_month y (Suc m) + (r - days_in_month y m)"
      proof (rule "1.IH" [OF c])
        show "1 \<le> Suc m" by simp
        show "Suc m \<le> 12" using False by simp
        show "1 \<le> r - days_in_month y m" using nle by simp
        show "days_before_month y (Suc m) + (r - days_in_month y m) \<le> days_before_month y 13"
          unfolding eq by (rule "1.prems"(4))
        show "find_month y (Suc m) (r - days_in_month y m) = (m', d)"
          using "1.prems"(5) c by (simp add: find_month.simps [of y m r])
      qed
      then show ?thesis unfolding eq .
    qed
  qed
qed

lemma days_before_year_10000: "days_before_year 10000 = 3652059"
  by (simp add: days_before_year_def)

lemma ord2ymd_spec:
  assumes "1 \<le> n" and "ord2ymd n = (y, m, d)"
  shows "1 \<le> y \<and> 1 \<le> m \<and> m \<le> 12 \<and> 1 \<le> d \<and> d \<le> days_in_month y m \<and>
         ymd2ord y m d = n \<and> (n \<le> 3652059 \<longrightarrow> y \<le> 9999)"
proof -
  define y0 where "y0 = find_year n (n div 366 + 1)"
  have fy: "n div 366 + 1 \<le> y0 \<and> days_before_year y0 < n \<and> n \<le> days_before_year (Suc y0)"
    unfolding y0_def using year_estimate [OF assms(1)] by (rule find_year_spec)
  then have y0: "1 \<le> y0" by simp
  from fy have lt: "days_before_year y0 < n" and le: "n \<le> days_before_year (Suc y0)" by blast+
  from assms(2) have "y = y0 \<and> find_month y0 1 (n - days_before_year y0) = (m, d)"
    unfolding ord2ymd_def y0_def [symmetric] by (auto simp add: Let_def split: prod.splits)
  then have yy: "y = y0" and fm: "find_month y0 1 (n - days_before_year y0) = (m, d)"
    by blast+
  have tot: "days_before_month y0 1 + (n - days_before_year y0) \<le> days_before_month y0 13"
    using lt le days_before_year_Suc [OF y0] by (simp add: days_before_month_13 split: if_splits)
  have "1 \<le> m \<and> m \<le> 12 \<and> 1 \<le> d \<and> d \<le> days_in_month y0 m \<and>
     days_before_month y0 m + d = days_before_month y0 1 + (n - days_before_year y0)"
  proof (rule find_month_spec [OF _ _ _ tot fm])
    show "1 \<le> n - days_before_year y0" using lt by simp
  qed simp_all
  moreover have "y0 \<le> 9999" if "n \<le> 3652059"
  proof (rule ccontr)
    assume "\<not> y0 \<le> 9999"
    then have "10000 \<le> y0" by simp
    then have "days_before_year 10000 \<le> days_before_year y0" by (rule days_before_year_mono)
    with lt that show False unfolding days_before_year_10000 by simp
  qed
  ultimately show ?thesis
    using lt y0 unfolding yy ymd2ord_def by auto
qed


lemma prod_less_iff:
  fixes a c :: "'a::linorder" and b d :: "'b::linorder"
  shows "(a, b) < (c, d) \<longleftrightarrow> a < c \<or> (a = c \<and> b < d)"
  by (auto simp: less_prod_def')

lemma ymd2ord_less:
  assumes "1 \<le> y1" "1 \<le> m1" "m1 \<le> 12" "d1 \<le> days_in_month y1 m1"
    and "1 \<le> m2" "1 \<le> d2"
    and "(y1, m1, d1) < (y2, m2, d2)"
  shows "ymd2ord y1 m1 d1 < ymd2ord y2 m2 d2"
proof -
  from assms(7) consider "y1 < y2" | "y1 = y2" "m1 < m2" | "y1 = y2" "m1 = m2" "d1 < d2"
    unfolding prod_less_iff by blast
  then show ?thesis
  proof cases
    case 1
    have "days_before_month y1 m1 + days_in_month y1 m1 \<le> days_before_month y1 13"
      using assms(2,3) by (intro days_before_month_mono) simp_all
    then have "ymd2ord y1 m1 d1 \<le> days_before_year y1 + days_before_month y1 13"
      unfolding ymd2ord_def using assms(4) by simp
    also have "\<dots> = days_before_year (Suc y1)"
      using assms(1) by (simp only: days_before_year_Suc days_before_month_13)
    also have "\<dots> \<le> days_before_year y2"
      using 1 by (intro days_before_year_mono) simp
    also have "\<dots> < ymd2ord y2 m2 d2"
      unfolding ymd2ord_def using assms(6) by simp
    finally show ?thesis .
  next
    case 2
    have "days_before_month y1 m1 + days_in_month y1 m1 \<le> days_before_month y1 m2"
      using assms(2) 2(2) by (rule days_before_month_mono)
    then show ?thesis
      unfolding ymd2ord_def 2(1) [symmetric] using assms(4,6) by simp
  next
    case 3
    then show ?thesis unfolding ymd2ord_def by simp
  qed
qed

lemma to_micros_split:
  "to_micros d = int (ymd2ord (year d) (month d) (day d)) * 86400000000 + time_micros d"
  unfolding to_micros_def US_PER_DAY_def by simp

lemma time_micros_bounds:
  "valid_datetime d \<Longrightarrow> 0 \<le> time_micros d \<and> time_micros d < 86400000000"
  unfolding valid_datetime_def time_micros_def by simp

lemma time_micros_less:
  assumes "valid_datetime a" "valid_datetime b"
    and "(hour a, minute a, second a, microsecond a) < (hour b, minute b, second b, microsecond b)"
  shows "time_micros a < time_micros b"
  using assms unfolding valid_datetime_def time_micros_def prod_less_iff by auto

lemma to_micros_less:
  assumes "valid_datetime a" "valid_datetime b" "dt_tuple a < dt_tuple b"
  shows "to_micros a < to_micros b"
proof -
  let ?da = "(year a, month a, day a)" and ?db = "(year b, month b, day b)"
  let ?ta = "(hour a, minute a, second a, microsecond a)"
  let ?tb = "(hour b, minute b, second b, microsecond b)"
  from assms(3) consider "?da < ?db" | "?da = ?db" "?ta < ?tb"
    unfolding dt_tuple_def prod_less_iff by blast
  then show ?thesis
  proof cases
    case 1
    have "ymd2ord (year a) (month a) (day a) < ymd2ord (year b) (month b) (day b)"
      using assms(1,2) 1 unfolding valid_datetime_def MINYEAR_def
      by (intro ymd2ord_less) simp_all
    then have "int (ymd2ord (year a) (month a) (day a)) + 1 \<le> int (ymd2ord (year b) (month b) (day b))"
      by simp
    then have "(int (ymd2ord (year a) (month a) (day a)) + 1) * 86400000000
        \<le> int (ymd2ord (year b) (month b) (day b)) * 86400000000"
      by (rule mult_right_mono) simp
    with time_micros_bounds [OF assms(1)] time_micros_bounds [OF assms(2)]
    show ?thesis unfolding to_micros_split by simp
  next
    case 2
    from 2(1) have "ymd2ord (year a) (month a) (day a) = ymd2ord (year b) (month b) (day b)"
      by simp
    with time_micros_less [OF assms(1,2) 2(2)] show ?thesis
      unfolding to_micros_split by simp
  qed
qed

lemma to_micros_less_iff:
  assumes "valid_datetime a" "valid_datetime b"
  shows "to_micros a < to_micros b \<longleftrightarrow> dt_tuple a < dt_tuple b"
proof
  assume "dt_tuple a < dt_tuple b"
  with assms show "to_micros a < to_micros b" by (rule to_micros_less)
next
  assume lt: "to_micros a < to_micros b"
  show "dt_tuple a < dt_tuple b"
  proof (rule ccontr)
    assume "\<not> dt_tuple a < dt_tuple b"
    then consider "dt_tuple a = dt_tuple b" | "dt_tuple b < dt_tuple a" by fastforce
    then show False
    proof cases
      case 1
      then have "to_micros a = to_micros b"
        unfolding dt_tuple_def to_micros_def time_micros_def by simp
      with lt show False by simp
    next
      case 2
      with assms have "to_micros b < to_micros a" by (intro to_micros_less)
      with lt show False by simp
    qed
  qed
qed

lemma to_micros_le_iff:
  assumes "valid_datetime a" "valid_datetime b"
  shows "to_micros a \<le> to_micros b \<longleftrightarrow> dt_tuple a \<le> dt_tuple b"
  using to_micros_less_iff [OF assms(2,1)] by (simp add: not_less [symmetric])


lemma divmod_spec:
  assumes "0 < b" "divmod a b = (q, r)"
  shows "a = q * b + r \<and> r < b"
  using assms unfolding divmod_def by auto

lemma of_micros_aux:
  fixes k q r1 h r2 mi r3 s us :: nat
  assumes "k = q * 86400000000 + r1" "r1 < 86400000000"
    and "r1 = h * 3600000000 + r2" "r2 < 3600000000"
    and "r2 = mi * 60000000 + r3" "r3 < 60000000"
    and "r3 = s * 1000000 + us" "us < 1000000"
    and "86400000000 \<le> k" "k < 3652060 * 86400000000"
  shows "h < 24 \<and> mi < 60 \<and> s < 60 \<and> 1 \<le> q \<and> q \<le> 3652059 \<and>
         (((int q * 24 + int h) * 60 + int mi) * 60 + int s) * 1000000 + int us = int k"
  using assms by auto

lemma of_micros_spec:
  assumes "min_micros \<le> n" "n \<le> max_micros"
  shows "\<exists>d. of_micros n z = Inr d \<and> valid_datetime d \<and> to_micros d = n \<and> tzinfo d = z"
proof -
  define k where "k = nat n"
  obtain q r1 where 1: "divmod k 86400000000 = (q, r1)" by (cases "divmod k 86400000000")
  obtain h r2 where 2: "divmod r1 3600000000 = (h, r2)" by (cases "divmod r1 3600000000")
  obtain mi r3 where 3: "divmod r2 60000000 = (mi, r3)" by (cases "divmod r2 60000000")
  obtain s us where 4: "divmod r3 1000000 = (s, us)" by (cases "divmod r3 1000000")
  obtain y m d where 5: "ord2ymd q = (y, m, d)" by (cases "ord2ymd q")
  have kn: "int k = n" and lo: "86400000000 \<le> k" and hi: "k < 3652060 * 86400000000"
    using assms unfolding k_def min_micros_def max_micros_def US_PER_DAY_def by simp_all
  have a: "h < 24 \<and> mi < 60 \<and> s < 60 \<and> 1 \<le> q \<and> q \<le> 3652059 \<and>
         (((int q * 24 + int h) * 60 + int mi) * 60 + int s) * 1000000 + int us = int k"
    using divmod_spec [OF _ 1] divmod_spec [OF _ 2] divmod_spec [OF _ 3] divmod_spec [OF _ 4] lo hi
    by (intro of_micros_aux [of k q r1 h r2 mi r3 s us]) simp_all
  then have q1: "1 \<le> q" by blast
  note o = ord2ymd_spec [OF q1 5]
  have us: "us < 1000000" using divmod_spec [OF _ 4] by simp
  let ?d = "\<lparr>year = y, month = m, day = d, hour = h, minute = mi, second = s,
              microsecond = us, tzinfo = z\<rparr>"
  have "of_micros n z = Inr ?d"
    using assms unfolding of_micros_def k_def [symmetric] by (simp add: 1 2 3 4 5)
  moreover have "valid_datetime ?d"
    unfolding valid_datetime_def MINYEAR_def MAXYEAR_def using o a us by simp
  moreover have "to_micros ?d = n"
    unfolding to_micros_def time_micros_def US_PER_DAY_def using o a kn by simp
  ultimately show ?thesis by simp
qed

section \<open>Lemmas: ISO-8601 text\<close>

lemma of_char_digit: "of_char (digit (x mod 10)) = 48 + x mod 10"
proof -
  have "x mod 10 < 10" by simp
  then have "48 + x mod 10 < 256" by simp
  then show ?thesis unfolding digit_def by simp
qed

lemma digit_val_digit [simp]: "digit_val (digit (x mod 10)) = Some (x mod 10)"
proof -
  have "(48::nat) \<le> of_char (digit (x mod 10))" "of_char (digit (x mod 10)) \<le> (57::nat)"
    unfolding of_char_digit by simp_all
  then show ?thesis
    unfolding digit_val_def is_digit_def by (simp add: of_char_digit)
qed

lemma is_digit_digit: "is_digit (digit (x mod 10))"
  unfolding is_digit_def of_char_digit by simp

lemma is_digit_zpad: "c \<in> set (zpad w n) \<Longrightarrow> is_digit c"
  by (induction w arbitrary: n) (auto simp: is_digit_digit)

lemma not_digit_chars:
  "\<not> is_digit (CHR ''-'')" "\<not> is_digit (CHR ''+'')" "\<not> is_digit (CHR '':'')"
  "\<not> is_digit (CHR ''.'')" "\<not> is_digit (CHR ''T'')"
  unfolding is_digit_def by simp_all

lemma zpad_no_sep [simp]:
  "CHR ''-'' \<notin> set (zpad w n)" "CHR ''+'' \<notin> set (zpad w n)"
  "CHR '':'' \<notin> set (zpad w n)" "CHR ''.'' \<notin> set (zpad w n)"
  using is_digit_zpad not_digit_chars by blast+

lemma length_zpad [simp]: "length (zpad w n) = w"
  by (induction w arbitrary: n) simp_all

lemma parse_digits_append:
  "parse_digits acc (xs @ ys) =
     (case parse_digits acc xs of None \<Rightarrow> None | Some v \<Rightarrow> parse_digits v ys)"
  by (induction xs arbitrary: acc) (simp_all split: option.splits)

lemma parse_digits_zpad: "parse_digits acc (zpad w n) = Some (acc * 10 ^ w + n mod 10 ^ w)"
proof (induction w arbitrary: n)
  case 0
  then show ?case by simp
next
  case (Suc w)
  have "n mod (10 * 10 ^ w) = n div 10 mod 10 ^ w * 10 + n mod 10"
    by (simp add: mod_mult2_eq)
  then show ?case
    by (simp add: parse_digits_append Suc.IH algebra_simps)
qed

lemma int_of_zpad [simp]: "0 < w \<Longrightarrow> n < 10 ^ w \<Longrightarrow> int_of (zpad w n) = Some n"
  unfolding int_of_def using length_zpad [of w n]
  by (auto simp: parse_digits_zpad simp del: length_zpad)










lemma append_eq_same_length:
  "length xs = length ys \<Longrightarrow> xs @ us = ys @ vs \<longleftrightarrow> xs = ys \<and> us = vs"
  by simp



lemma isoformat_utc:
  "tzinfo d = Some UTC \<Longrightarrow>
   isoformat zone d =
     zpad 4 (year d) @ CHR ''-'' # zpad 2 (month d) @ CHR ''-'' # zpad 2 (day d) @ CHR ''T'' #
     zpad 2 (hour d) @ CHR '':'' # zpad 2 (minute d) @ CHR '':'' # zpad 2 (second d) @
     frac (microsecond d) @ CHR ''+'' # zpad 2 0 @ CHR '':'' # zpad 2 0"
  unfolding isoformat_def iso_text_def utcoffset_def format_offset_def by simp

lemma valid_bounds:
  assumes "valid_datetime d"
  shows "year d < 10 ^ 4" "month d < 10 ^ 2" "day d < 10 ^ 2" "hour d < 10 ^ 2"
    "minute d < 10 ^ 2" "second d < 10 ^ 2" "microsecond d < 1000000"
  using assms days_in_month_bounds(2) [of "year d" "month d"]
  unfolding valid_datetime_def MAXYEAR_def by simp_all





lemma not_in_frac [simp]: "CHR ''-'' \<notin> set (frac us)" "CHR ''+'' \<notin> set (frac us)"
  unfolding frac_def by simp_all

lemma parse_fraction_frac: "us < 1000000 \<Longrightarrow> parse_fraction (frac us) = Some us"
  unfolding parse_fraction_def frac_def by simp

lemma parse_hms_frac:
  assumes "h < 10 ^ 2" "m < 10 ^ 2" "s < 10 ^ 2" "us < 1000000"
  shows "parse_hh_mm_ss_ff (zpad 2 h @ CHR '':'' # zpad 2 m @ CHR '':'' # zpad 2 s @ frac us)
           = Some (h, m, s, us)"
  using assms unfolding parse_hh_mm_ss_ff_def
  by (simp add: nth_append parse_fraction_frac del: zpad.simps)

lemma parse_hm_zero: "parse_hh_mm_ss_ff (zpad 2 0 @ CHR '':'' # zpad 2 0) = Some (0, 0, 0, 0)"
  unfolding parse_hh_mm_ss_ff_def by (simp add: nth_append del: zpad.simps)

lemma takeWhile_until: "x \<notin> set t \<Longrightarrow> takeWhile (\<lambda>c. c \<noteq> x) (t @ x # u) = t"
  by (induction t) auto

lemma dropWhile_until: "x \<notin> set t \<Longrightarrow> dropWhile (\<lambda>c. c \<noteq> x) (t @ x # u) = x # u"
  by (induction t) auto

lemma split_tz_plus:
  assumes "CHR ''-'' \<notin> set t" "CHR ''+'' \<notin> set t" "CHR ''-'' \<notin> set u"
  shows "split_tz (t @ CHR ''+'' # u) = (t, Some (False, u))"
  using assms unfolding split_tz_def
  by (simp add: takeWhile_until dropWhile_until)

lemma parse_isoformat_date_zpad:
  assumes "y < 10 ^ 4" "m < 10 ^ 2" "d < 10 ^ 2"
  shows "parse_isoformat_date (zpad 4 y @ CHR ''-'' # zpad 2 m @ CHR ''-'' # zpad 2 d) = Some (y, m, d)"
  using assms unfolding parse_isoformat_date_def
  by (simp add: nth_append del: zpad.simps)

lemma fromisoformat_isoformat:
  assumes "valid_datetime d" "tzinfo d = Some UTC"
  shows "fromisoformat (isoformat zone d) = Some (d\<lparr>tzinfo := Some (FixedOffset 0)\<rparr>)"
proof -
  note b = valid_bounds [OF assms(1)]
  let ?date = "zpad 4 (year d) @ CHR ''-'' # zpad 2 (month d) @ CHR ''-'' # zpad 2 (day d)"
  let ?hms = "zpad 2 (hour d) @ CHR '':'' # zpad 2 (minute d) @ CHR '':'' # zpad 2 (second d)
               @ frac (microsecond d)"
  let ?tz = "zpad 2 0 @ CHR '':'' # zpad 2 0"
  have iso: "isoformat zone d = ?date @ CHR ''T'' # ?hms @ CHR ''+'' # ?tz"
    unfolding isoformat_utc [OF assms(2)] by simp
  have len: "length ?date = 10" by simp
  have t10: "take 10 (isoformat zone d) = ?date"
    unfolding iso using len by (simp del: zpad.simps)
  have d11: "drop 11 (isoformat zone d) = ?hms @ CHR ''+'' # ?tz"
    unfolding iso using len by (simp del: zpad.simps)
  have sp: "split_tz (?hms @ CHR ''+'' # ?tz) = (?hms, Some (False, ?tz))"
    by (rule split_tz_plus) (simp_all del: zpad.simps)
  have tz: "parse_tz (Some (False, ?tz)) = Some (Some (FixedOffset 0))"
    unfolding parse_tz_def by (simp add: parse_hm_zero del: zpad.simps)
  have time: "parse_isoformat_time (?hms @ CHR ''+'' # ?tz)
      = Some (hour d, minute d, second d, microsecond d, Some (FixedOffset 0))"
    unfolding parse_isoformat_time_def sp using b
    by (simp add: parse_hms_frac tz del: zpad.simps)
  have v: "valid_datetime (d\<lparr>tzinfo := Some (FixedOffset 0)\<rparr>)"
    using assms(1) unfolding valid_datetime_def by simp
  have r: "\<lparr>year = year d, month = month d, day = day d, hour = hour d, minute = minute d,
          second = second d, microsecond = microsecond d, tzinfo = Some (FixedOffset 0)\<rparr>
        = d\<lparr>tzinfo := Some (FixedOffset 0)\<rparr>"
    by simp
  show ?thesis
    unfolding fromisoformat_def t10 d11 time
    using b v by (simp add: parse_isoformat_date_zpad r del: zpad.simps)
qed

section \<open>Lemmas: the store and the manager\<close>

lemma list_reminders_trace [simp]: "list_reminders f (st\<lparr>trace := t\<rparr>) = list_reminders f st"
  by (simp add: list_reminders_def)

lemma list_reminders_jobs [simp]: "list_reminders f (st\<lparr>jobs := t\<rparr>) = list_reminders f st"
  by (simp add: list_reminders_def)

lemma list_reminders_disk [simp]: "list_reminders f (st\<lparr>disk := t\<rparr>) = list_reminders f st"
  by (simp add: list_reminders_def)

lemma of_micros_Inl: "of_micros n z = Inl e \<Longrightarrow> e = OverflowError"
  unfolding of_micros_def by (auto split: if_splits prod.splits)

lemma of_micros_tzinfo: "of_micros n z = Inr d \<Longrightarrow> tzinfo d = z"
  unfolding of_micros_def by (auto split: if_splits prod.splits)

lemma astimezone_utc_Inl: "astimezone_utc zone d = Inl e \<Longrightarrow> e = OverflowError"
  unfolding astimezone_utc_def by (auto split: if_splits option.splits dest: of_micros_Inl)

lemma astimezone_utc_tzinfo: "astimezone_utc zone d = Inr u \<Longrightarrow> tzinfo u = Some UTC"
  unfolding astimezone_utc_def by (auto split: if_splits option.splits dest: of_micros_tzinfo)

lemma add_reminder_Inl:
  assumes "astimezone_utc zone (localize w) = Inl e"
  shows "add_reminder zone f utcnow t w st = (Inl e, st)"
  using assms by (simp add: add_reminder_def localize_def Let_def)

lemma add_reminder_ExecuteFails:
  assumes "astimezone_utc zone (localize w) = Inr u"
  shows "add_reminder zone ExecuteFails utcnow t w st = (Inl StorageError, st)"
  using assms by (simp add: add_reminder_def localize_def Let_def execute_insert_def)

lemma add_reminder_CommitFails:
  assumes "astimezone_utc zone (localize w) = Inr u"
  shows "add_reminder zone CommitFails utcnow t w st =
    (Inl StorageError, st\<lparr>conn := insert_row t (isoformat zone u) (isoformat zone (utcnow\<lparr>tzinfo := Some UTC\<rparr>)) (conn st),
                           trace := trace st @ [SqlInsert (next_rowid (conn st))]\<rparr>)"
  using assms
  by (simp add: add_reminder_def localize_def Let_def execute_insert_def commit_def)

lemma add_reminder_CommitFailsRollback:
  assumes "astimezone_utc zone (localize w) = Inr u"
  shows "add_reminder zone CommitFailsRollback utcnow t w st =
    (Inl StorageError, st\<lparr>conn := disk st,
                           trace := trace st @ [SqlInsert (next_rowid (conn st))]\<rparr>)"
  using assms
  by (simp add: add_reminder_def localize_def Let_def execute_insert_def commit_def)

lemma add_reminder_NoFault:
  assumes "astimezone_utc zone (localize w) = Inr u"
  shows "add_reminder zone NoFault utcnow t w st =
    (Inr \<lparr>rid = next_rowid (conn st), rtext = t, when_utc = u,
          created_utc = utcnow\<lparr>tzinfo := Some UTC\<rparr>\<rparr>,
     st\<lparr>conn := insert_row t (isoformat zone u) (isoformat zone (utcnow\<lparr>tzinfo := Some UTC\<rparr>)) (conn st),
        disk := insert_row t (isoformat zone u) (isoformat zone (utcnow\<lparr>tzinfo := Some UTC\<rparr>)) (conn st),
        jobs := (jobs st)(ReminderJob (next_rowid (conn st)) \<mapsto>
                  \<lparr>run_date = u, args = (next_rowid (conn st), t)\<rparr>),
        trace := trace st @ [SqlInsert (next_rowid (conn st)), SqlCommit,
                             AddJob (ReminderJob (next_rowid (conn st)))]\<rparr>)"
  using assms
  by (simp add: add_reminder_def localize_def Let_def execute_insert_def commit_def
      schedule_job_def)

lemma rowcount_pos: "0 < length (filter (\<lambda>r. col_id r = n) xs) \<longleftrightarrow> n \<in> col_id ` set xs"
  by (induction xs) auto

lemma filter_absent: "n \<notin> col_id ` set xs \<Longrightarrow> filter (\<lambda>r. col_id r \<noteq> n) xs = xs"
  by (induction xs) auto

lemma delete_reminder_NoFault:
  assumes "sqlite_int64 n"
  shows "delete_reminder NoFault n st =
     (Inr (n \<in> col_id ` set (rows (conn st))),
      st\<lparr>conn := delete_row n (conn st), disk := delete_row n (conn st),
         jobs := (jobs st)(ReminderJob n := None),
         trace := trace st @ [SqlDelete n, SqlCommit, RemoveJob (ReminderJob n)]\<rparr>)"
proof (cases "jobs st (ReminderJob n)")
  case None
  then have "(jobs st)(ReminderJob n := None) = jobs st" by (rule fun_upd_idem)
  with None assms show ?thesis
    unfolding delete_reminder_def execute_delete_def commit_def remove_job_def
    by (simp only: rowcount_pos [symmetric]) simp
next
  case (Some a)
  with assms show ?thesis
    unfolding delete_reminder_def execute_delete_def commit_def remove_job_def
    by (simp only: rowcount_pos [symmetric]) simp
qed

lemma delete_reminder_overflow:
  "\<not> sqlite_int64 n \<Longrightarrow> delete_reminder f n st = (Inl OverflowError, st)"
  by (simp add: delete_reminder_def execute_delete_def)

lemma delete_reminder_fault:
  "f \<noteq> NoFault \<Longrightarrow>
     fst (delete_reminder f n st) = Inl (if sqlite_int64 n then StorageError else OverflowError) \<and>
     jobs (snd (delete_reminder f n st)) = jobs st"
  by (cases f) (simp_all add: delete_reminder_def execute_delete_def commit_def)

lemma strip_sorry_time: "strip sorry_time = sorry_time"
  by (simp add: strip_def sorry_time_def is_space_def)

lemma iso_text_tzinfo [simp]: "iso_text off (d\<lparr>tzinfo := z\<rparr>) = iso_text off d"
  by (simp add: iso_text_def)

lemma valid_datetime_tzinfo [simp]: "valid_datetime (d\<lparr>tzinfo := z\<rparr>) = valid_datetime d"
  by (simp add: valid_datetime_def)

lemma dt_tuple_tzinfo [simp]: "dt_tuple (d\<lparr>tzinfo := z\<rparr>) = dt_tuple d"
  by (simp add: dt_tuple_def)

lemma isoformat_UTC: "isoformat zone (d\<lparr>tzinfo := Some UTC\<rparr>) = iso_text (Some 0) d"
  by (simp add: isoformat_def utcoffset_def)

lemma fromisoformat_valid: "fromisoformat s = Some d \<Longrightarrow> valid_datetime d"
  unfolding fromisoformat_def
  by (auto simp: Let_def split: option.splits prod.splits if_splits)

lemma canonicalE:
  assumes "canonical s"
  obtains d where "fromisoformat s = Some d" "valid_datetime d"
    "s = isoformat zone (d\<lparr>tzinfo := Some UTC\<rparr>)"
proof -
  from assms obtain d where d: "fromisoformat s = Some d" "iso_text (Some 0) d = s"
    unfolding canonical_def by (auto split: option.splits)
  from d(1) have v: "valid_datetime d" by (rule fromisoformat_valid)
  have "s = isoformat zone (d\<lparr>tzinfo := Some UTC\<rparr>)"
    unfolding isoformat_UTC using d(2) by simp
  with d(1) v show ?thesis by (rule that)
qed

lemma canonical_isoformat:
  assumes "valid_datetime d" "tzinfo d = Some UTC"
  shows "canonical (isoformat zone d)"
proof -
  have "d\<lparr>tzinfo := Some UTC\<rparr> = d" using assms(2) by simp
  then have "isoformat zone d = iso_text (Some 0) d"
    using isoformat_UTC [of zone d] by simp
  then show ?thesis
    unfolding canonical_def using fromisoformat_isoformat [OF assms, of zone] by simp
qed

lemma row_reminder_new:
  assumes "valid_datetime u" "tzinfo u = Some UTC" "valid_datetime c" "tzinfo c = Some UTC"
  shows "row_reminder \<lparr>col_id = n, col_text = t, col_when_utc = isoformat zone u,
                       col_created_utc = isoformat zone c\<rparr>
         = Inr \<lparr>rid = n, rtext = t, when_utc = u, created_utc = c\<rparr>"
  using assms
  by (simp add: row_reminder_def fromisoformat_isoformat)

lemma row_reminder_wf:
  assumes "canonical (col_when_utc r)" "canonical (col_created_utc r)"
  obtains x where "row_reminder r = Inr x" "rid x = col_id r" "rtext x = col_text r"
    "valid_datetime (when_utc x)" "tzinfo (when_utc x) = Some UTC"
    "valid_datetime (created_utc x)" "tzinfo (created_utc x) = Some UTC"
    "col_when_utc r = isoformat zone (when_utc x)"
proof -
  from assms(1) obtain w where w: "fromisoformat (col_when_utc r) = Some w" "valid_datetime w"
    "col_when_utc r = isoformat zone (w\<lparr>tzinfo := Some UTC\<rparr>)" by (rule canonicalE)
  from assms(2) obtain c where c: "fromisoformat (col_created_utc r) = Some c" "valid_datetime c"
    by (rule canonicalE [where zone = zone])
  show ?thesis
    by (rule that [of "\<lparr>rid = col_id r, rtext = col_text r, when_utc = w\<lparr>tzinfo := Some UTC\<rparr>,
                       created_utc = c\<lparr>tzinfo := Some UTC\<rparr>\<rparr>"])
      (use w c in \<open>simp_all add: row_reminder_def\<close>)
qed

lemma fetch_reminders_map:
  assumes "\<forall>r \<in> set rs. row_reminder r = Inr (g r)"
  shows "fetch_reminders rs res = Inr (res @ map g rs)"
  using assms by (induction rs arbitrary: res) simp_all


lemma wf_row_reminder:
  assumes "wf_db d" "r \<in> set (rows d)"
  shows "row_reminder r = Inr (projr (row_reminder r)) \<and>
         rid (projr (row_reminder r)) = col_id r \<and>
         rtext (projr (row_reminder r)) = col_text r \<and>
         valid_datetime (when_utc (projr (row_reminder r))) \<and>
         tzinfo (when_utc (projr (row_reminder r))) = Some UTC \<and>
         tzinfo (created_utc (projr (row_reminder r))) = Some UTC \<and>
         col_when_utc r = isoformat zone (when_utc (projr (row_reminder r)))"
proof -
  from assms have "canonical (col_when_utc r)" "canonical (col_created_utc r)"
    unfolding wf_db_def by blast+
  then obtain x where "row_reminder r = Inr x" "rid x = col_id r" "rtext x = col_text r"
    "valid_datetime (when_utc x)" "tzinfo (when_utc x) = Some UTC"
    "valid_datetime (created_utc x)" "tzinfo (created_utc x) = Some UTC"
    "col_when_utc r = isoformat zone (when_utc x)"
    by (rule row_reminder_wf)
  then show ?thesis by simp
qed

lemma list_reminders_wf:
  assumes "wf_db (conn st)"
  shows "list_reminders NoFault st =
           Inr (map (\<lambda>r. projr (row_reminder r)) (sort_key col_when_utc (rows (conn st))))"
proof -
  have "\<forall>r \<in> set (sort_key col_when_utc (rows (conn st))).
          row_reminder r = Inr (projr (row_reminder r))"
    using wf_row_reminder [OF assms] by simp
  then show ?thesis
    unfolding list_reminders_def by (simp add: fetch_reminders_map)
qed

lemma ymd2ord_max:
  assumes "1 \<le> y" "y \<le> 9999" "1 \<le> m" "m \<le> 12" "d \<le> days_in_month y m"
  shows "ymd2ord y m d \<le> 3652059"
proof -
  have "days_before_month y m + days_in_month y m \<le> days_before_month y 13"
    using assms(3,4) by (intro days_before_month_mono) simp_all
  then have "ymd2ord y m d \<le> days_before_year y + days_before_month y 13"
    unfolding ymd2ord_def using assms(5) by simp
  also have "\<dots> = days_before_year (Suc y)"
    using assms(1) by (simp only: days_before_year_Suc days_before_month_13)
  also have "\<dots> \<le> days_before_year 10000"
    using assms(2) by (intro days_before_year_mono) simp
  finally show ?thesis unfolding days_before_year_10000 .
qed

lemma to_micros_range:
  assumes "valid_datetime d"
  shows "min_micros \<le> to_micros d \<and> to_micros d \<le> max_micros"
proof -
  from assms have "ymd2ord (year d) (month d) (day d) \<le> 3652059"
    unfolding valid_datetime_def MINYEAR_def MAXYEAR_def by (intro ymd2ord_max) simp_all
  moreover from assms have "1 \<le> ymd2ord (year d) (month d) (day d)"
    unfolding valid_datetime_def ymd2ord_def by simp
  ultimately have "1 \<le> int (ymd2ord (year d) (month d) (day d))"
    "int (ymd2ord (year d) (month d) (day d)) \<le> 3652059" by simp_all
  with time_micros_bounds [OF assms] show ?thesis
    unfolding to_micros_split min_micros_def max_micros_def US_PER_DAY_def by simp
qed

lemma of_micros_Inr:
  assumes "of_micros n z = Inr d"
  shows "valid_datetime d \<and> to_micros d = n \<and> tzinfo d = z"
proof -
  from assms have "min_micros \<le> n" "n \<le> max_micros"
    unfolding of_micros_def by (auto split: if_splits)
  then obtain d' where "of_micros n z = Inr d'" "valid_datetime d'" "to_micros d' = n" "tzinfo d' = z"
    using of_micros_spec by blast
  with assms show ?thesis by simp
qed

lemma datetime_eqI:
  assumes "dt_tuple a = dt_tuple b" "tzinfo a = tzinfo b"
  shows "a = (b :: datetime)"
  using assms unfolding dt_tuple_def by (cases a, cases b) simp

lemma to_micros_inj:
  assumes "valid_datetime a" "valid_datetime b" "to_micros a = to_micros b"
  shows "dt_tuple a = dt_tuple b"
proof -
  have "\<not> dt_tuple a < dt_tuple b" "\<not> dt_tuple b < dt_tuple a"
    using to_micros_less_iff [OF assms(1,2)] to_micros_less_iff [OF assms(2,1)] assms(3) by simp_all
  then show ?thesis by simp
qed

lemma of_micros_eqI:
  assumes "valid_datetime u" "to_micros u = n" "tzinfo u = z"
  shows "of_micros n z = Inr u"
proof -
  from to_micros_range [OF assms(1)] assms(2) have "min_micros \<le> n" "n \<le> max_micros" by simp_all
  then obtain d where d: "of_micros n z = Inr d" "valid_datetime d" "to_micros d = n" "tzinfo d = z"
    using of_micros_spec by blast
  have "dt_tuple d = dt_tuple u" using d(2) assms(1) by (rule to_micros_inj) (simp add: d(3) assms(2))
  then have "d = u" by (rule datetime_eqI) (simp add: d(4) assms(3))
  with d(1) show ?thesis by simp
qed

lemma astimezone_utc_valid:
  assumes "valid_datetime d" "astimezone_utc zone d = Inr u"
  shows "valid_datetime u \<and> tzinfo u = Some UTC"
  using assms unfolding astimezone_utc_def
  by (auto split: if_splits option.splits dest: of_micros_Inr)

lemma fold_max_ge: "a \<le> fold max xs a \<and> (\<forall>x \<in> set xs. x \<le> fold max xs (a::int))"
proof (induction xs arbitrary: a)
  case Nil
  then show ?case by simp
next
  case (Cons x xs)
  from Cons [of "max x a"] show ?case by auto
qed

lemma next_rowid_gt:
  "0 < next_rowid d \<and> seq d < next_rowid d \<and> (\<forall>r \<in> set (rows d). col_id r < next_rowid d)"
  using fold_max_ge [of 0 "map col_id (rows d)"] unfolding next_rowid_def by fastforce

lemma keys_ok_insert_row: "keys_ok d \<Longrightarrow> keys_ok (insert_row t w c d)"
  using next_rowid_gt [of d] unfolding keys_ok_def insert_row_def by fastforce

lemma keys_ok_delete_row: "keys_ok d \<Longrightarrow> keys_ok (delete_row n d)"
  unfolding keys_ok_def delete_row_def by (auto simp: distinct_map_filter)

lemma wf_db_insert_row:
  assumes "wf_db d" "canonical w" "canonical c"
  shows "wf_db (insert_row t w c d)"
  using assms keys_ok_insert_row [of d t w c] unfolding wf_db_def
  by (auto simp: insert_row_def)

lemma wf_db_delete_row: "wf_db d \<Longrightarrow> wf_db (delete_row n d)"
  using keys_ok_delete_row [of d n] unfolding wf_db_def by (auto simp: delete_row_def)

lemma count_sorted_map:
  "length (filter P (map g (sort_key k xs))) = length (filter (\<lambda>x. P (g x)) xs)"
proof -
  have "length (filter P (map g (sort_key k xs))) = length (filter (P \<circ> g) (sort_key k xs))"
    by (simp add: filter_map)
  also have "\<dots> = length (sort_key k (filter (P \<circ> g) xs))" by (simp add: filter_sort)
  finally show ?thesis by (simp add: comp_def)
qed

lemma add_then_list:
  fixes t :: string and zone :: zone and st :: ReminderManager
  assumes wf: "wf_db (conn st)" and now: "valid_datetime utcnow" and w: "valid_datetime when_local"
    and u: "astimezone_utc zone (localize when_local) = Inr u"
  defines "r \<equiv> \<lparr>rid = next_rowid (conn st), rtext = t, when_utc = u,
                  created_utc = utcnow\<lparr>tzinfo := Some UTC\<rparr>\<rparr>"
  defines "st' \<equiv> snd (add_reminder zone NoFault utcnow t when_local st)"
  shows "add_reminder zone NoFault utcnow t when_local st = (Inr r, st')"
    and "wf_db (conn st')" and "conn st' = disk st'"
    and "\<exists>rs0 rs. list_reminders NoFault st = Inr rs0 \<and> list_reminders NoFault st' = Inr rs \<and>
          r \<in> set rs \<and>
          (\<forall>P. length (filter P rs) = length (filter P rs0) + (if P r then 1 else 0))"
proof -
  let ?c = "utcnow\<lparr>tzinfo := Some UTC\<rparr>"
  let ?row = "\<lparr>col_id = next_rowid (conn st), col_text = t, col_when_utc = isoformat zone u,
               col_created_utc = isoformat zone ?c\<rparr>"
  have lw: "valid_datetime (localize when_local)" using w by (simp add: localize_def)
  from astimezone_utc_valid [OF lw u] have uv: "valid_datetime u" "tzinfo u = Some UTC" by simp_all
  have cv: "valid_datetime ?c" "tzinfo ?c = Some UTC" using now by simp_all
  show 1: "add_reminder zone NoFault utcnow t when_local st = (Inr r, st')"
    unfolding st'_def r_def by (simp add: add_reminder_NoFault [OF u])
  have conn: "conn st' = insert_row t (isoformat zone u) (isoformat zone ?c) (conn st)"
    unfolding st'_def by (simp add: add_reminder_NoFault [OF u])
  show "conn st' = disk st'"
    unfolding st'_def by (simp add: add_reminder_NoFault [OF u])
  show wf': "wf_db (conn st')"
    unfolding conn using wf canonical_isoformat [OF uv] canonical_isoformat [OF cv]
    by (rule wf_db_insert_row)
  have rows: "rows (conn st') = rows (conn st) @ [?row]"
    unfolding conn insert_row_def by simp
  have g: "projr (row_reminder ?row) = r"
    unfolding r_def by (simp add: row_reminder_new [OF uv cv])
  let ?g = "\<lambda>x. projr (row_reminder x)"
  have cnt: "length (filter P (map ?g (sort_key col_when_utc (rows (conn st'))))) =
      length (filter P (map ?g (sort_key col_when_utc (rows (conn st))))) + (if P r then 1 else 0)"
    for P
    unfolding count_sorted_map rows using g by simp
  have mem: "r \<in> set (map ?g (sort_key col_when_utc (rows (conn st'))))"
    unfolding rows using g by (simp add: image_iff)
  show "\<exists>rs0 rs. list_reminders NoFault st = Inr rs0 \<and> list_reminders NoFault st' = Inr rs \<and>
          r \<in> set rs \<and>
          (\<forall>P. length (filter P rs) = length (filter P rs0) + (if P r then 1 else 0))"
    unfolding list_reminders_wf [OF wf] list_reminders_wf [OF wf'] using cnt mem by blast
qed

section \<open>Lemmas: evaluation on concrete inputs\<close>

lemma digit_eq_char: "(of_char c :: nat) = 48 + k \<Longrightarrow> digit k = c"
proof -
  assume a: "(of_char c :: nat) = 48 + k"
  have "digit k = char_of (of_char c :: nat)" unfolding digit_def a ..
  then show ?thesis by simp
qed

lemma digit_simps:
  "digit 0 = CHR ''0''" "digit 1 = CHR ''1''" "digit 2 = CHR ''2''" "digit 3 = CHR ''3''"
  "digit 4 = CHR ''4''" "digit 5 = CHR ''5''" "digit 6 = CHR ''6''" "digit 7 = CHR ''7''"
  "digit 8 = CHR ''8''" "digit 9 = CHR ''9''" "digit (Suc 0) = CHR ''1''"
  by (rule digit_eq_char, simp)+

lemma zpad_2: "zpad 2 n = [digit (n div 10 mod 10), digit (n mod 10)]"
  by (simp add: numeral_2_eq_2)

lemma zpad_4:
  "zpad 4 n = [digit (n div 10 div 10 div 10 mod 10), digit (n div 10 div 10 mod 10),
               digit (n div 10 mod 10), digit (n mod 10)]"
proof -
  have h: "(4::nat) = Suc (Suc (Suc (Suc 0)))" by simp
  show ?thesis by (subst h) simp
qed

lemma zpad_6:
  "zpad 6 n = [digit (n div 10 div 10 div 10 div 10 div 10 mod 10),
               digit (n div 10 div 10 div 10 div 10 mod 10), digit (n div 10 div 10 div 10 mod 10),
               digit (n div 10 div 10 mod 10), digit (n div 10 mod 10), digit (n mod 10)]"
proof -
  have h: "(6::nat) = Suc (Suc (Suc (Suc (Suc (Suc 0)))))" by simp
  show ?thesis by (subst h) simp
qed

lemmas iso_eval =
  isoformat_def iso_text_def frac_def utcoffset_def format_offset_def zpad_2 zpad_4 zpad_6 digit_simps

lemmas valid_eval = valid_datetime_def MINYEAR_def MAXYEAR_def days_in_month_def is_leap_def

lemma valid_now_local: "valid_datetime now_local"
  by (simp add: now_local_def valid_eval)

lemma valid_utc_now: "valid_datetime utc_now"
  by (simp add: utc_now_def valid_eval)

lemma canonical_text:
  assumes "valid_datetime d" "tzinfo d = Some UTC" "isoformat (\<lambda>_. 0) d = s"
  shows "canonical s"
  using canonical_isoformat [OF assms(1,2), of "\<lambda>_. 0"] unfolding assms(3) .

lemma canonical_rows:
  "canonical ''2025-03-09T09:15:00+00:00''" "canonical ''2025-03-09T17:30:00+00:00''"
  "canonical ''2025-03-08T20:00:00.250000+00:00''"
proof -
  show "canonical ''2025-03-09T09:15:00+00:00''"
    by (rule canonical_text [of "\<lparr>year = 2025, month = 3, day = 9, hour = 9, minute = 15,
          second = 0, microsecond = 0, tzinfo = Some UTC\<rparr>"]) (simp_all add: valid_eval iso_eval)
  show "canonical ''2025-03-09T17:30:00+00:00''"
    by (rule canonical_text [of "\<lparr>year = 2025, month = 3, day = 9, hour = 17, minute = 30,
          second = 0, microsecond = 0, tzinfo = Some UTC\<rparr>"]) (simp_all add: valid_eval iso_eval)
  show "canonical ''2025-03-08T20:00:00.250000+00:00''"
    by (rule canonical_text [of "\<lparr>year = 2025, month = 3, day = 8, hour = 20, minute = 0,
          second = 0, microsecond = 250000, tzinfo = Some UTC\<rparr>"]) (simp_all add: valid_eval iso_eval)
qed

lemma wf_db_empty: "wf_db db_empty"
  by (simp add: wf_db_def keys_ok_def db_empty_def)

lemma wf_db_two: "wf_db db_two"
  by (simp add: wf_db_def keys_ok_def db_two_def row_past_def row_future_def canonical_rows)

section \<open>Lemmas: time zones, recovery and runs\<close>

lemma row_reminder_tzinfo:
  "row_reminder r = Inr x \<Longrightarrow> tzinfo (when_utc x) = Some UTC \<and> tzinfo (created_utc x) = Some UTC"
  unfolding row_reminder_def by (auto split: option.splits)

lemma fetch_reminders_all:
  assumes "fetch_reminders rs res = Inr out" "\<forall>x \<in> set res. P x"
    and "\<And>r x. row_reminder r = Inr x \<Longrightarrow> P x"
  shows "\<forall>x \<in> set out. P x"
  using assms(1,2)
proof (induction rs arbitrary: res)
  case Nil
  then show ?case by simp
next
  case (Cons r rs)
  from Cons.prems(1) obtain x where x: "row_reminder r = Inr x"
    and rest: "fetch_reminders rs (res @ [x]) = Inr out"
    by (auto split: sum.splits)
  from assms(3) [OF x] Cons.prems(2) have "\<forall>y \<in> set (res @ [x]). P y" by simp
  with rest show ?case by (rule Cons.IH)
qed

lemma list_reminders_tzinfo:
  assumes "list_reminders f st = Inr rs"
  shows "\<forall>x \<in> set rs. tzinfo (when_utc x) = Some UTC \<and> tzinfo (created_utc x) = Some UTC"
proof -
  from assms have "fetch_reminders (sort_key col_when_utc (rows (conn st))) [] = Inr rs"
    unfolding list_reminders_def by (simp split: if_splits)
  then show ?thesis
    by (rule fetch_reminders_all) (simp_all add: row_reminder_tzinfo)
qed

lemma add_reminder_Inr:
  assumes "add_reminder zone f utcnow t w st = (Inr r, st')"
  shows "f = NoFault \<and> astimezone_utc zone (localize w) = Inr (when_utc r) \<and>
         created_utc r = utcnow\<lparr>tzinfo := Some UTC\<rparr> \<and> rid r = next_rowid (conn st) \<and> rtext r = t"
proof (cases "astimezone_utc zone (localize w)")
  case (Inl e)
  with assms show ?thesis by (simp add: add_reminder_Inl)
next
  case (Inr u)
  with assms show ?thesis
    by (cases f)
      (auto simp: add_reminder_NoFault add_reminder_ExecuteFails add_reminder_CommitFails
        add_reminder_CommitFailsRollback)
qed

lemma to_micros_tzinfo [simp]: "to_micros (d\<lparr>tzinfo := z\<rparr>) = to_micros d"
  by (simp add: to_micros_def time_micros_def)

lemma astimezone_utc_local:
  assumes "tzinfo d = Some USER_TZ" "astimezone_utc zone d = Inr u"
  shows "to_micros u = to_micros d - zone d * 1000000"
  using assms unfolding astimezone_utc_def utcoffset_def
  by (auto dest: of_micros_Inr)

lemma days_before_month_eval:
  "days_before_month y 1 = 0"
  "days_before_month y 2 = 31"
  "days_before_month y 3 = (if is_leap y then 60 else 59)"
  "days_before_month y 4 = (if is_leap y then 91 else 90)"
  "days_before_month y 5 = (if is_leap y then 121 else 120)"
  "days_before_month y 6 = (if is_leap y then 152 else 151)"
  "days_before_month y 7 = (if is_leap y then 182 else 181)"
  "days_before_month y 8 = (if is_leap y then 213 else 212)"
  "days_before_month y 9 = (if is_leap y then 244 else 243)"
  "days_before_month y 10 = (if is_leap y then 274 else 273)"
  "days_before_month y 11 = (if is_leap y then 305 else 304)"
  "days_before_month y 12 = (if is_leap y then 335 else 334)"
  by (simp_all add: eval_nat_numeral days_in_month_def)

lemmas micros_eval =
  to_micros_def time_micros_def US_PER_DAY_def ymd2ord_def days_before_year_def
  days_before_month_eval is_leap_def

lemma valid_at_2300: "valid_datetime at_2300"
  by (simp add: at_2300_def now_local_def valid_eval)

lemma astimezone_at_2300: "astimezone_utc zone_0530 (localize at_2300) = Inr at_2300_utc"
proof -
  have l: "localize at_2300 = at_2300" by (simp add: localize_def at_2300_def now_local_def)
  have "of_micros (to_micros at_2300 - 19800 * 1000000) (Some UTC) = Inr at_2300_utc"
    by (rule of_micros_eqI)
      (simp_all add: at_2300_utc_def at_2300_def now_local_def valid_eval micros_eval)
  then show ?thesis
    unfolding l astimezone_utc_def utcoffset_def
    by (simp add: at_2300_def now_local_def zone_0530_def)
qed

lemma list_reminders_ids:
  assumes "wf_db (conn st)" "list_reminders NoFault st = Inr rs"
  shows "rid ` set rs = col_id ` set (rows (conn st))"
proof -
  note w = wf_row_reminder [OF assms(1), where zone = "\<lambda>_. 0"]
  have "rid ` set (map (\<lambda>r. projr (row_reminder r)) (sort_key col_when_utc (rows (conn st))))
      = col_id ` set (rows (conn st))"
    using w by (auto simp: image_iff)
  with assms(2) show ?thesis unfolding list_reminders_wf [OF assms(1)] by simp
qed

lemma next_rowid_db_empty: "next_rowid db_empty = 1"
  by (simp add: next_rowid_def db_empty_def)

lemma cmp_pos_iff: "0 < cmp a b \<longleftrightarrow> b < a"
  unfolding cmp_def by auto

lemma cmp_le_iff: "cmp a b \<le> 0 \<longleftrightarrow> a \<le> b"
  unfolding cmp_def by auto

lemma dt_cmp_same_tz: "tzinfo a = tzinfo b \<Longrightarrow> dt_cmp zone a b = Inr (cmp (dt_tuple a) (dt_tuple b))"
  by (simp add: dt_cmp_def)

lemma row_reminder_when:
  assumes "row_reminder r = Inr x"
  shows "\<exists>w c. fromisoformat (col_when_utc r) = Some w \<and> fromisoformat (col_created_utc r) = Some c \<and>
           x = \<lparr>rid = col_id r, rtext = col_text r, when_utc = w\<lparr>tzinfo := Some UTC\<rparr>,
                 created_utc = c\<lparr>tzinfo := Some UTC\<rparr>\<rparr>"
  using assms unfolding row_reminder_def by (auto split: option.splits)

lemma reschedule_rows_spec:
  assumes "\<forall>r \<in> set rs. \<exists>x. row_reminder r = Inr x" "tzinfo now = Some UTC"
  shows "\<exists>st'. reschedule_rows zone now rs st = Inr st' \<and> conn st' = conn st \<and> disk st' = disk st \<and>
           trace st' = trace st @ map (\<lambda>r. AddJob (ReminderJob (col_id r)))
             (filter (\<lambda>r. dt_tuple now < dt_tuple (when_utc (projr (row_reminder r)))) rs) \<and>
           dom (jobs st') = dom (jobs st) \<union> (\<lambda>r. ReminderJob (col_id r)) `
             {r \<in> set rs. dt_tuple now < dt_tuple (when_utc (projr (row_reminder r)))}"
  using assms(1)
proof (induction rs arbitrary: st)
  case Nil
  then show ?case by simp
next
  case (Cons r rs)
  from Cons.prems obtain x where x: "row_reminder r = Inr x" by auto
  then obtain w c where w: "fromisoformat (col_when_utc r) = Some w"
    and c: "fromisoformat (col_created_utc r) = Some c"
    and xe: "x = \<lparr>rid = col_id r, rtext = col_text r, when_utc = w\<lparr>tzinfo := Some UTC\<rparr>,
                 created_utc = c\<lparr>tzinfo := Some UTC\<rparr>\<rparr>"
    using row_reminder_when by blast
  have cmpw: "dt_cmp zone (w\<lparr>tzinfo := Some UTC\<rparr>) now = Inr (cmp (dt_tuple w) (dt_tuple now))"
    using assms(2) by (simp add: dt_cmp_same_tz)
  have px: "dt_tuple (when_utc (projr (row_reminder r))) = dt_tuple w"
    unfolding x xe by simp
  from Cons.prems have rest: "\<forall>r \<in> set rs. \<exists>x. row_reminder r = Inr x" by simp
  show ?case
  proof (cases "dt_tuple now < dt_tuple w")
    case True
    let ?st1 = "schedule_job x st"
    from Cons.IH [OF rest, of ?st1] obtain st' where
      s: "reschedule_rows zone now rs ?st1 = Inr st'" "conn st' = conn ?st1" "disk st' = disk ?st1"
      "trace st' = trace ?st1 @ map (\<lambda>r. AddJob (ReminderJob (col_id r)))
             (filter (\<lambda>r. dt_tuple now < dt_tuple (when_utc (projr (row_reminder r)))) rs)"
      "dom (jobs st') = dom (jobs ?st1) \<union> (\<lambda>r. ReminderJob (col_id r)) `
             {r \<in> set rs. dt_tuple now < dt_tuple (when_utc (projr (row_reminder r)))}"
      by blast
    have "reschedule_rows zone now (r # rs) st = Inr st'"
      using True s(1) by (simp add: w c cmpw cmp_pos_iff Let_def xe)
    moreover have "dom (jobs st') = dom (jobs st) \<union> (\<lambda>r. ReminderJob (col_id r)) `
             {q \<in> set (r # rs). dt_tuple now < dt_tuple (when_utc (projr (row_reminder q)))}"
      unfolding s(5) using True px by (auto simp: schedule_job_def xe)
    ultimately show ?thesis
      using s(2,3,4) True px by (simp add: schedule_job_def xe)
  next
    case False
    from Cons.IH [OF rest, of st] obtain st' where
      s: "reschedule_rows zone now rs st = Inr st'" "conn st' = conn st" "disk st' = disk st"
      "trace st' = trace st @ map (\<lambda>r. AddJob (ReminderJob (col_id r)))
             (filter (\<lambda>r. dt_tuple now < dt_tuple (when_utc (projr (row_reminder r)))) rs)"
      "dom (jobs st') = dom (jobs st) \<union> (\<lambda>r. ReminderJob (col_id r)) `
             {r \<in> set rs. dt_tuple now < dt_tuple (when_utc (projr (row_reminder r)))}"
      by blast
    have "reschedule_rows zone now (r # rs) st = Inr st'"
      using False s(1) by (simp add: w cmpw cmp_pos_iff Let_def)
    moreover have "dom (jobs st') = dom (jobs st) \<union> (\<lambda>r. ReminderJob (col_id r)) `
             {q \<in> set (r # rs). dt_tuple now < dt_tuple (when_utc (projr (row_reminder q)))}"
      unfolding s(5) using False px by auto
    ultimately show ?thesis
      using s(2,3,4) False px by simp
  qed
qed

lemma seq_insert_row [simp]: "seq (insert_row t w c d) = next_rowid d"
  by (simp add: insert_row_def)

lemma seq_delete_row [simp]: "seq (delete_row n d) = seq d"
  by (simp add: delete_row_def)

lemma add_reminder_cases:
  obtains (conv) e where "astimezone_utc zone (localize w) = Inl e"
      "add_reminder zone f utcnow t w st = (Inl e, st)"
  | (exec) u where "astimezone_utc zone (localize w) = Inr u" "f = ExecuteFails"
      "add_reminder zone f utcnow t w st = (Inl StorageError, st)"
  | (commit) u where "astimezone_utc zone (localize w) = Inr u" "f = CommitFails"
      "add_reminder zone f utcnow t w st =
         (Inl StorageError,
          st\<lparr>conn := insert_row t (isoformat zone u) (isoformat zone (utcnow\<lparr>tzinfo := Some UTC\<rparr>))
                      (conn st),
             trace := trace st @ [SqlInsert (next_rowid (conn st))]\<rparr>)"
  | (rollback) u where "astimezone_utc zone (localize w) = Inr u" "f = CommitFailsRollback"
      "add_reminder zone f utcnow t w st =
         (Inl StorageError,
          st\<lparr>conn := disk st, trace := trace st @ [SqlInsert (next_rowid (conn st))]\<rparr>)"
  | (ok) u where "astimezone_utc zone (localize w) = Inr u" "f = NoFault"
      "add_reminder zone f utcnow t w st =
         (Inr \<lparr>rid = next_rowid (conn st), rtext = t, when_utc = u,
               created_utc = utcnow\<lparr>tzinfo := Some UTC\<rparr>\<rparr>,
          st\<lparr>conn := insert_row t (isoformat zone u) (isoformat zone (utcnow\<lparr>tzinfo := Some UTC\<rparr>))
                      (conn st),
             disk := insert_row t (isoformat zone u) (isoformat zone (utcnow\<lparr>tzinfo := Some UTC\<rparr>))
                      (conn st),
             jobs := (jobs st)(ReminderJob (next_rowid (conn st)) \<mapsto>
                       \<lparr>run_date = u, args = (next_rowid (conn st), t)\<rparr>),
             trace := trace st @ [SqlInsert (next_rowid (conn st)), SqlCommit,
                                  AddJob (ReminderJob (next_rowid (conn st)))]\<rparr>)"
proof (cases "astimezone_utc zone (localize w)")
  case (Inl e)
  show ?thesis by (rule conv [OF Inl]) (rule add_reminder_Inl [OF Inl])
next
  case (Inr u)
  show ?thesis
  proof (cases f)
    case NoFault
    show ?thesis
      by (rule ok [OF Inr NoFault]) (simp only: NoFault add_reminder_NoFault [OF Inr])
  next
    case ExecuteFails
    show ?thesis
      by (rule exec [OF Inr ExecuteFails])
        (simp only: ExecuteFails add_reminder_ExecuteFails [OF Inr])
  next
    case CommitFails
    show ?thesis
      by (rule commit [OF Inr CommitFails])
        (simp only: CommitFails add_reminder_CommitFails [OF Inr])
  next
    case CommitFailsRollback
    show ?thesis
      by (rule rollback [OF Inr CommitFailsRollback])
        (simp only: CommitFailsRollback add_reminder_CommitFailsRollback [OF Inr])
  qed
qed

lemma delete_reminder_cases:
  obtains (overflow) "\<not> sqlite_int64 n" "delete_reminder f n st = (Inl OverflowError, st)"
  | (exec) "f = ExecuteFails" "delete_reminder f n st = (Inl StorageError, st)"
  | (commit) "f = CommitFails"
      "delete_reminder f n st =
         (Inl StorageError, st\<lparr>conn := delete_row n (conn st), trace := trace st @ [SqlDelete n]\<rparr>)"
  | (rollback) "f = CommitFailsRollback"
      "delete_reminder f n st =
         (Inl StorageError, st\<lparr>conn := disk st, trace := trace st @ [SqlDelete n]\<rparr>)"
  | (ok) "f = NoFault" "sqlite_int64 n"
      "delete_reminder f n st =
         (Inr (n \<in> col_id ` set (rows (conn st))),
          st\<lparr>conn := delete_row n (conn st), disk := delete_row n (conn st),
             jobs := (jobs st)(ReminderJob n := None),
             trace := trace st @ [SqlDelete n, SqlCommit, RemoveJob (ReminderJob n)]\<rparr>)"
proof (cases "sqlite_int64 n")
  case False
  show ?thesis by (rule overflow [OF False]) (rule delete_reminder_overflow [OF False])
next
  case True
  show ?thesis
  proof (cases f)
    case NoFault
    show ?thesis
      by (rule ok [OF NoFault True]) (simp only: NoFault delete_reminder_NoFault [OF True])
  next
    case ExecuteFails
    show ?thesis
      by (rule exec [OF ExecuteFails])
        (simp add: ExecuteFails True delete_reminder_def execute_delete_def)
  next
    case CommitFails
    show ?thesis
      by (rule commit [OF CommitFails])
        (simp add: CommitFails True delete_reminder_def execute_delete_def commit_def)
  next
    case CommitFailsRollback
    show ?thesis
      by (rule rollback [OF CommitFailsRollback])
        (simp add: CommitFailsRollback True delete_reminder_def execute_delete_def commit_def)
  qed
qed

lemma run_job_store [simp]: "conn (run_job j st) = conn st" "disk (run_job j st) = disk st"
  by (simp_all add: run_job_def alert_def say_def split: option.splits)

lemma step_seq_ge:
  assumes "seq_ge b st" "step zone x st = (i, st')"
  shows "seq_ge b st' \<and> (\<forall>n. i = Some n \<longrightarrow> b < n \<and> 0 < n \<and> seq_ge n st' \<and> n = next_rowid (conn st))"
proof (cases x)
  case (Add f utcnow t w)
  note g = next_rowid_gt [of "conn st"]
  show ?thesis
  proof (cases rule: add_reminder_cases [of zone w f utcnow t st])
    case (conv e)
    with assms Add show ?thesis by simp
  next
    case (exec u)
    with assms Add show ?thesis by simp
  next
    case (commit u)
    with assms Add g show ?thesis by (auto simp: seq_ge_def keys_ok_insert_row)
  next
    case (rollback u)
    with assms Add show ?thesis by (auto simp: seq_ge_def)
  next
    case (ok u)
    with assms Add g show ?thesis by (auto simp: seq_ge_def keys_ok_insert_row)
  qed
next
  case (Delete f n)
  show ?thesis
  proof (cases rule: delete_reminder_cases [where f = f and n = n and st = st])
    case overflow
    with assms Delete show ?thesis by simp
  next
    case exec
    with assms Delete show ?thesis by simp
  next
    case commit
    with assms Delete show ?thesis by (auto simp: seq_ge_def keys_ok_delete_row)
  next
    case rollback
    with assms Delete show ?thesis by (auto simp: seq_ge_def)
  next
    case ok
    with assms Delete show ?thesis by (auto simp: seq_ge_def keys_ok_delete_row)
  qed
next
  case (Run j)
  with assms show ?thesis by (auto simp: seq_ge_def)
qed

lemma run_ops_seq_ge:
  assumes "seq_ge b st" "run_ops zone xs st = (ids, st')"
  shows "sorted_wrt (<) ids \<and> (\<forall>i \<in> set ids. b < i \<and> 0 < i) \<and> seq_ge b st' \<and>
         (\<forall>i \<in> set ids. i \<le> seq (conn st'))"
  using assms
proof (induction xs arbitrary: b st ids st')
  case Nil
  then show ?case by simp
next
  case (Cons x xs)
  obtain i st1 where s: "step zone x st = (i, st1)" by (cases "step zone x st")
  obtain js st2 where r: "run_ops zone xs st1 = (js, st2)" by (cases "run_ops zone xs st1")
  from Cons.prems(2) s r have ids: "ids = (case i of None \<Rightarrow> js | Some n \<Rightarrow> n # js)"
    and st': "st' = st2" by simp_all
  note st = step_seq_ge [OF Cons.prems(1) s]
  show ?case
  proof (cases i)
    case None
    with Cons.IH [OF _ r, of b] st ids st' show ?thesis by simp
  next
    case (Some n)
    with st have n: "b < n" "0 < n" "seq_ge n st1" by blast+
    from Cons.IH [OF n(3) r] have j: "sorted_wrt (<) js" "\<forall>i \<in> set js. n < i \<and> 0 < i"
      "seq_ge n st2" "\<forall>i \<in> set js. i \<le> seq (conn st2)" by simp_all
    from j(3) n(1) have "seq_ge b st2" "n \<le> seq (conn st2)" by (auto simp: seq_ge_def)
    with j n Some ids st' show ?thesis by auto
  qed
qed

lemma step_never_runs:
  assumes "jobs st (ReminderJob n) = None" "RunJob (ReminderJob n) \<notin> set (trace st)"
    and "n \<le> seq (conn st)" "n \<le> seq (disk st)" "step zone x st = (i, st')"
  shows "jobs st' (ReminderJob n) = None \<and> RunJob (ReminderJob n) \<notin> set (trace st') \<and>
         n \<le> seq (conn st') \<and> n \<le> seq (disk st')"
proof (cases x)
  case (Add f utcnow t w)
  note g = next_rowid_gt [of "conn st"]
  show ?thesis
    by (cases rule: add_reminder_cases [of zone w f utcnow t st])
      (use assms Add g in auto)
next
  case (Delete f m)
  show ?thesis
    by (cases rule: delete_reminder_cases [where f = f and n = m and st = st]) (use assms Delete in auto)
next
  case (Run j)
  with assms show ?thesis
    by (auto simp: run_job_def alert_def say_def split: option.splits)
qed

lemma run_ops_never_runs:
  assumes "jobs st (ReminderJob n) = None" "RunJob (ReminderJob n) \<notin> set (trace st)"
    and "n \<le> seq (conn st)" "n \<le> seq (disk st)" "run_ops zone xs st = (ids, st')"
  shows "jobs st' (ReminderJob n) = None \<and> RunJob (ReminderJob n) \<notin> set (trace st')"
  using assms
proof (induction xs arbitrary: st ids st')
  case Nil
  then show ?case by simp
next
  case (Cons x xs)
  obtain i st1 where s: "step zone x st = (i, st1)" by (cases "step zone x st")
  obtain js st2 where r: "run_ops zone xs st1 = (js, st2)" by (cases "run_ops zone xs st1")
  from Cons.prems(5) s r have st': "st' = st2" by simp
  from step_never_runs [OF Cons.prems(1-4) s]
  have "jobs st1 (ReminderJob n) = None" "RunJob (ReminderJob n) \<notin> set (trace st1)"
    "n \<le> seq (conn st1)" "n \<le> seq (disk st1)" by simp_all
  from Cons.IH [OF this r] st' show ?case by simp
qed


lemma valid_examples:
  "valid_datetime past_utc" "valid_datetime at_2300_utc" "valid_datetime created_utc_0"
  "tzinfo past_utc = Some UTC" "tzinfo at_2300_utc = Some UTC" "tzinfo created_utc_0 = Some UTC"
  by (simp_all add: past_utc_def at_2300_utc_def created_utc_0_def valid_eval)

lemma row_past_iso:
  "row_past = \<lparr>col_id = 1, col_text = ''stretch'', col_when_utc = isoformat zone past_utc,
                col_created_utc = isoformat zone created_utc_0\<rparr>"
  by (simp add: row_past_def past_utc_def created_utc_0_def iso_eval)

lemma row_future_iso:
  "row_future = \<lparr>col_id = 2, col_text = ''call mom'', col_when_utc = isoformat zone at_2300_utc,
                  col_created_utc = isoformat zone created_utc_0\<rparr>"
  by (simp add: row_future_def at_2300_utc_def created_utc_0_def iso_eval)

lemma row_reminder_past:
  "row_reminder row_past =
     Inr \<lparr>rid = 1, rtext = ''stretch'', when_utc = past_utc, created_utc = created_utc_0\<rparr>"
  unfolding row_past_iso [of "\<lambda>_. 0"] by (rule row_reminder_new) (rule valid_examples)+

lemma row_reminder_future:
  "row_reminder row_future =
     Inr \<lparr>rid = 2, rtext = ''call mom'', when_utc = at_2300_utc, created_utc = created_utc_0\<rparr>"
  unfolding row_future_iso [of "\<lambda>_. 0"] by (rule row_reminder_new) (rule valid_examples)+

section \<open>Lemmas: resolving a clock time\<close>

lemma cmp_greater: "b < a \<Longrightarrow> cmp a b = 1"
  unfolding cmp_def by (auto dest: less_asym)

lemma localize_props [simp]:
  "valid_datetime (localize d) = valid_datetime d" "dt_tuple (localize d) = dt_tuple d"
  "to_micros (localize d) = to_micros d"
  by (simp_all add: localize_def)

lemma localize_tzinfo:
  "tzinfo d = None \<or> tzinfo d = Some USER_TZ \<Longrightarrow> tzinfo (localize d) = Some USER_TZ"
  by (auto simp: localize_def)

lemma same_day_micros:
  assumes "valid_datetime a" "valid_datetime b"
    and "year a = year b" "month a = month b" "day a = day b"
  shows "to_micros b < to_micros a + US_PER_DAY"
  using time_micros_bounds [OF assms(1)] time_micros_bounds [OF assms(2)] assms(3-5)
  unfolding to_micros_split US_PER_DAY_def by simp

lemma ymd2ord_last: "ymd2ord 9999 12 31 = 3652059"
  by (simp add: ymd2ord_def days_before_year_def days_before_month_eval is_leap_def)

lemma not_last_day:
  assumes "valid_datetime d" "(year d, month d, day d) \<noteq> (9999, 12, 31)"
  shows "to_micros d + US_PER_DAY \<le> max_micros"
proof -
  from assms have v: "1 \<le> year d" "year d \<le> 9999" "1 \<le> month d" "month d \<le> 12" "1 \<le> day d"
    "day d \<le> days_in_month (year d) (month d)"
    unfolding valid_datetime_def MINYEAR_def MAXYEAR_def by simp_all
  have "day d \<le> 31" using v(6) days_in_month_bounds(2) [of "year d" "month d"] by simp
  with v assms(2) have "(year d, month d, day d) < (9999, 12, 31)"
    unfolding prod_less_iff by auto
  with v have "ymd2ord (year d) (month d) (day d) < ymd2ord 9999 12 31"
    by (intro ymd2ord_less) simp_all
  then have "int (ymd2ord (year d) (month d) (day d)) + 1 \<le> 3652059"
    unfolding ymd2ord_last by simp
  with time_micros_bounds [OF assms(1)] show ?thesis
    unfolding to_micros_split max_micros_def US_PER_DAY_def by simp
qed

lemma dt_add_day:
  assumes "valid_datetime d" "(year d, month d, day d) \<noteq> (9999, 12, 31)"
  shows "\<exists>r. dt_add d US_PER_DAY = Inr r"
proof -
  from to_micros_range [OF assms(1)] have "min_micros \<le> to_micros d + US_PER_DAY"
    unfolding US_PER_DAY_def by simp
  with not_last_day [OF assms] of_micros_spec [of "to_micros d + US_PER_DAY" "tzinfo d"]
  show ?thesis unfolding dt_add_def by blast
qed

lemma dt_add_Inr:
  assumes "dt_add d k = Inr r"
  shows "valid_datetime r \<and> to_micros r = to_micros d + k \<and> tzinfo r = tzinfo d"
  using of_micros_Inr [of "to_micros d + k" "tzinfo d" r] assms unfolding dt_add_def by simp

lemma parse_time_local_eq:
  assumes "tzinfo now = Some USER_TZ" "parse text_time now = Inr dt"
    and "tzinfo dt = None \<or> tzinfo dt = Some USER_TZ"
  shows "parse_time_local parse zone now text_time =
           (if dt_tuple dt \<le> dt_tuple now
            then (case dt_add (localize dt) US_PER_DAY of Inl e \<Rightarrow> None | Inr r \<Rightarrow> Some r)
            else Some (localize dt))"
proof -
  have "tzinfo (localize dt) = tzinfo now"
    using localize_tzinfo [OF assms(3)] assms(1) by simp
  then have "dt_cmp zone (localize dt) now = Inr (cmp (dt_tuple dt) (dt_tuple now))"
    by (simp add: dt_cmp_same_tz)
  then show ?thesis
    unfolding parse_time_local_def by (simp add: assms(2) Let_def cmp_le_iff)
qed


lemma is_digit_literals:
  "is_digit CHR ''0''" "is_digit CHR ''1''" "is_digit CHR ''2''" "is_digit CHR ''3''"
  "is_digit CHR ''4''" "is_digit CHR ''5''" "is_digit CHR ''6''" "is_digit CHR ''7''"
  "is_digit CHR ''8''" "is_digit CHR ''9''" "\<not> is_digit CHR ''s''"
  by (simp_all add: is_digit_def)

lemma parse_clock_2100: "parse_clock ''21:00'' now_local = Inr (now_local\<lparr>hour := 21, minute := 0\<rparr>)"
  by (simp add: parse_clock_def parse_hh_mm_ss_ff_def int_of_def digit_val_def is_digit_literals)

lemma parse_clock_2300: "parse_clock ''23:00'' now_local = Inr at_2300"
  by (simp add: parse_clock_def parse_hh_mm_ss_ff_def int_of_def digit_val_def is_digit_literals
      at_2300_def now_local_def)

lemma valid_tomorrow_2100: "valid_datetime tomorrow_2100"
  by (simp add: tomorrow_2100_def valid_eval)

lemma to_micros_tomorrow_2100:
  "to_micros tomorrow_2100 = to_micros (now_local\<lparr>hour := 21, minute := 0\<rparr>) + US_PER_DAY"
  by (simp add: tomorrow_2100_def now_local_def micros_eval)

section \<open>The claims\<close>

text \<open>
  Claim C3. In \<^verbatim>\<open>add_reminder\<close> the row is inserted and committed before the timer job is
  armed: a call that returns a reminder has run, in this order, the insert, the commit and
  \<^verbatim>\<open>add_job\<close>, and the row is in the database file. A call that fails for whatever reason
  leaves the scheduler's jobs as they were, has called \<^verbatim>\<open>add_job\<close> not at all and has not
  changed the database file; when the storage layer fails, the call fails, with the
  storage error (or with the overflow of the time conversion, which comes first).
\<close>

theorem add_reminder_persists_before_arming:
  assumes "add_reminder zone f utcnow t w st = (res, st')"
  shows "(case res of
            Inr r \<Rightarrow>
              f = NoFault \<and>
              trace st' = trace st @ [SqlInsert (rid r), SqlCommit, AddJob (ReminderJob (rid r))] \<and>
              (\<exists>x \<in> set (rows (disk st')). col_id x = rid r \<and> col_text x = t) \<and>
              jobs st' = (jobs st)(ReminderJob (rid r) \<mapsto> \<lparr>run_date = when_utc r, args = (rid r, t)\<rparr>)
          | Inl e \<Rightarrow>
              jobs st' = jobs st \<and>
              (trace st' = trace st \<or> (\<exists>n. trace st' = trace st @ [SqlInsert n])) \<and>
              disk st' = disk st) \<and>
         (f \<noteq> NoFault \<longrightarrow> res = Inl StorageError \<or> res = Inl OverflowError)"
proof (cases "astimezone_utc zone (localize w)")
  case (Inl e)
  with assms astimezone_utc_Inl [OF Inl] show ?thesis
    by (auto simp: add_reminder_Inl)
next
  case (Inr u)
  show ?thesis
  proof (cases f)
    case NoFault
    with assms Inr show ?thesis
      by (auto simp: add_reminder_NoFault insert_row_def)
  next
    case ExecuteFails
    with assms Inr show ?thesis by (auto simp: add_reminder_ExecuteFails)
  next
    case CommitFails
    with assms Inr show ?thesis by (auto simp: add_reminder_CommitFails)
  next
    case CommitFailsRollback
    with assms Inr show ?thesis by (auto simp: add_reminder_CommitFailsRollback)
  qed
qed

theorem add_reminder_persists_before_arming_witness:
  "(fst (add_reminder zone_0530 CommitFails utc_now ''tea'' now_local st_empty) = Inl StorageError \<or>
    fst (add_reminder zone_0530 CommitFails utc_now ''tea'' now_local st_empty) = Inl OverflowError) \<and>
   jobs (snd (add_reminder zone_0530 CommitFails utc_now ''tea'' now_local st_empty)) = jobs st_empty"
  using add_reminder_persists_before_arming [of zone_0530 CommitFails utc_now "''tea''" now_local
      st_empty "fst (add_reminder zone_0530 CommitFails utc_now ''tea'' now_local st_empty)"
      "snd (add_reminder zone_0530 CommitFails utc_now ''tea'' now_local st_empty)"]
  by (auto split: sum.splits)

text \<open>
  Claim C4, as the code has it. On an id that no row has \<^verbatim>\<open>delete_reminder\<close> does not always
  return \<^verbatim>\<open>False\<close>: the id 9223372036854775808 is outside the signed 64-bit range of
  SQLite's \<^verbatim>\<open>INTEGER\<close>, no row of the table has it, and \<^verbatim>\<open>execute\<close> raises \<^verbatim>\<open>OverflowError\<close> when
  it binds it, so that the call raises instead of returning \<^verbatim>\<open>False\<close>; nothing is changed.
\<close>

theorem delete_absent_id_raises_counterexample:
  "9223372036854775808 \<notin> col_id ` set (rows (conn st_two)) \<and>
   fst (delete_reminder NoFault 9223372036854775808 st_two) = Inl OverflowError \<and>
   fst (delete_reminder NoFault 9223372036854775808 st_two) \<noteq> Inr False \<and>
   snd (delete_reminder NoFault 9223372036854775808 st_two) = st_two"
proof -
  have "\<not> sqlite_int64 9223372036854775808" by (simp add: sqlite_int64_def)
  then have "delete_reminder NoFault 9223372036854775808 st_two = (Inl OverflowError, st_two)"
    by (rule delete_reminder_overflow)
  then show ?thesis
    by (simp add: st_two_def db_two_def row_past_def row_future_def)
qed

text \<open>
  Claim C4, amended. \<^verbatim>\<open>delete_reminder\<close> returns \<^verbatim>\<open>True\<close> exactly when the storage layer did
  not fail and a row with that id (an id within the signed 64-bit range) existed, and then
  the row is gone; on an id within that range that no row has it returns \<^verbatim>\<open>False\<close> and
  leaves the rows and the listing as they were. On an id outside that range the call raises
  (\<^verbatim>\<open>OverflowError\<close> when the storage layer does not fail) and changes nothing. Whenever an id
  within the range is given and the storage layer does not fail, the cancellation
  \<^verbatim>\<open>remove_job\<close> is called for the id (so also when the row existed), and the call returns
  whether or not there was a job to cancel. On an id within the range the only error that
  \<^verbatim>\<open>delete_reminder\<close> raises is the storage error.
\<close>

theorem delete_reminder_result:
  assumes "delete_reminder f n st = (res, st')"
  shows "(res = Inr True \<longleftrightarrow>
            f = NoFault \<and> sqlite_int64 n \<and> n \<in> col_id ` set (rows (conn st))) \<and>
         (res = Inr True \<longrightarrow>
            n \<notin> col_id ` set (rows (conn st')) \<and> n \<notin> col_id ` set (rows (disk st')) \<and>
            rows (conn st') = filter (\<lambda>r. col_id r \<noteq> n) (rows (conn st))) \<and>
         (f = NoFault \<and> sqlite_int64 n \<and> n \<notin> col_id ` set (rows (conn st)) \<longrightarrow>
            res = Inr False \<and> rows (conn st') = rows (conn st) \<and>
            list_reminders g st' = list_reminders g st) \<and>
         (f = NoFault \<and> sqlite_int64 n \<longrightarrow>
            (\<exists>b. res = Inr b) \<and>
            trace st' = trace st @ [SqlDelete n, SqlCommit, RemoveJob (ReminderJob n)] \<and>
            jobs st' = (jobs st)(ReminderJob n := None)) \<and>
         (\<not> sqlite_int64 n \<longrightarrow>
            (\<exists>e. res = Inl e) \<and> (f = NoFault \<longrightarrow> res = Inl OverflowError) \<and> st' = st) \<and>
         (f \<noteq> NoFault \<longrightarrow>
            (\<exists>e. res = Inl e) \<and> (sqlite_int64 n \<longrightarrow> res = Inl StorageError) \<and>
            jobs st' = jobs st)"
proof (cases "sqlite_int64 n")
  case False
  with assms have "res = Inl OverflowError" "st' = st"
    by (simp_all add: delete_reminder_overflow)
  with False show ?thesis by simp
next
  case range: True
  show ?thesis
  proof (cases "f = NoFault")
    case True
    with assms range have res: "res = Inr (n \<in> col_id ` set (rows (conn st)))"
      and st': "st' = st\<lparr>conn := delete_row n (conn st), disk := delete_row n (conn st),
           jobs := (jobs st)(ReminderJob n := None),
           trace := trace st @ [SqlDelete n, SqlCommit, RemoveJob (ReminderJob n)]\<rparr>"
      by (simp_all add: delete_reminder_NoFault)
    show ?thesis
      unfolding res st' using True range
      by (auto simp: delete_row_def filter_absent list_reminders_def)
  next
    case False
    with assms range delete_reminder_fault [OF False, of n st] show ?thesis by auto
  qed
qed

theorem delete_reminder_result_witness:
  "sqlite_int64 1 \<and> sqlite_int64 7 \<and>
   fst (delete_reminder NoFault 1 st_two) = Inr True \<and>
   fst (delete_reminder NoFault 7 st_two) = Inr False \<and>
   rows (conn (snd (delete_reminder NoFault 7 st_two))) = rows (conn st_two) \<and>
   \<not> sqlite_int64 (- 9223372036854775809) \<and>
   fst (delete_reminder NoFault (- 9223372036854775809) st_two) = Inl OverflowError"
  using delete_reminder_result [of NoFault 1 st_two "fst (delete_reminder NoFault 1 st_two)"
      "snd (delete_reminder NoFault 1 st_two)" NoFault]
    delete_reminder_result [of NoFault 7 st_two "fst (delete_reminder NoFault 7 st_two)"
      "snd (delete_reminder NoFault 7 st_two)" NoFault]
    delete_reminder_result [of NoFault "- 9223372036854775809" st_two
      "fst (delete_reminder NoFault (- 9223372036854775809) st_two)"
      "snd (delete_reminder NoFault (- 9223372036854775809) st_two)" NoFault]
  by (simp add: sqlite_int64_def st_two_def db_two_def row_past_def row_future_def)



text \<open>
  Claim C7. When the parser does not recognise the time expression, \<^verbatim>\<open>parse_time_local\<close>
  resolves no time at all (its \<^verbatim>\<open>None\<close> is the parse error handed to the caller), and the
  command handler creates no row, arms no job and only tells the user that the time was not
  understood.
\<close>

theorem unrecognized_time_creates_nothing:
  assumes "parse time_text now = Inl e"
  shows "parse_time_local parse zone now time_text = None \<and>
         handle_reminder_at parse zone f now utcnow task time_text st =
           (Inr True, st\<lparr>trace := trace st @ [Say sorry_time]\<rparr>)"
  using assms
  by (simp add: parse_time_local_def handle_reminder_at_def say_def strip_sorry_time)

theorem unrecognized_time_creates_nothing_witness:
  "parse_clock ''soon'' now_local = Inl ParserError \<and>
   parse_time_local parse_clock zone_0530 now_local ''soon'' = None \<and>
   handle_reminder_at parse_clock zone_0530 NoFault now_local utc_now ''tea'' ''soon'' st_empty =
     (Inr True, st_empty\<lparr>trace := trace st_empty @ [Say sorry_time]\<rparr>)"
proof -
  have p: "parse_clock ''soon'' now_local = Inl ParserError"
    by (simp add: parse_clock_def)
  from unrecognized_time_creates_nothing [of parse_clock "''soon''" now_local ParserError
      zone_0530 NoFault utc_now "''tea''" st_empty] p
  show ?thesis by simp
qed

text \<open>
  Claim C8. The callback \<^verbatim>\<open>_alert\<close> only hands the text \<^verbatim>\<open>Reminder: ...\<close> to the speech
  engine: the connection, the database file and the jobs are as before, and so is what
  \<^verbatim>\<open>list_reminders\<close> returns. The same holds for the whole firing of a job by the scheduler,
  as far as the store goes: the row of a fired reminder stays until it is deleted.
\<close>

theorem alert_leaves_store_untouched:
  "conn (alert n s st) = conn st \<and> disk (alert n s st) = disk st \<and> jobs (alert n s st) = jobs st \<and>
   trace (alert n s st) = trace st @ [Say (strip (''Reminder: '' @ s))] \<and>
   list_reminders f (alert n s st) = list_reminders f st \<and>
   conn (run_job j st) = conn st \<and> disk (run_job j st) = disk st \<and>
   list_reminders f (run_job j st) = list_reminders f st"
  by (simp add: alert_def say_def run_job_def split: option.splits)

text \<open>
  Claim C10. \<^verbatim>\<open>add_reminder\<close> treats a naive \<^verbatim>\<open>when_local\<close> exactly as the same wall-clock
  reading in the local zone, and converts a local reading by subtracting the local offset.
  The reminder it returns, and every reminder that \<^verbatim>\<open>list_reminders\<close> returns, carries
  \<^verbatim>\<open>tz.UTC\<close> in both \<^verbatim>\<open>when_utc\<close> and \<^verbatim>\<open>created_utc\<close>.
\<close>

theorem reminders_are_utc_normalised:
  "(tzinfo w = None \<longrightarrow>
      add_reminder zone f utcnow t w st = add_reminder zone f utcnow t (w\<lparr>tzinfo := Some USER_TZ\<rparr>) st) \<and>
   (\<forall>r st'. add_reminder zone f utcnow t w st = (Inr r, st') \<longrightarrow>
      tzinfo (when_utc r) = Some UTC \<and> tzinfo (created_utc r) = Some UTC \<and>
      (tzinfo w = None \<or> tzinfo w = Some USER_TZ \<longrightarrow>
         to_micros (when_utc r) = to_micros w - zone (localize w) * 1000000)) \<and>
   (\<forall>rs. list_reminders g st = Inr rs \<longrightarrow>
      (\<forall>x \<in> set rs. tzinfo (when_utc x) = Some UTC \<and> tzinfo (created_utc x) = Some UTC))"
proof -
  have 1: "add_reminder zone f utcnow t w st
      = add_reminder zone f utcnow t (w\<lparr>tzinfo := Some USER_TZ\<rparr>) st" if "tzinfo w = None"
  proof -
    from that have "localize (w\<lparr>tzinfo := Some USER_TZ\<rparr>) = localize w"
      by (simp add: localize_def)
    then show ?thesis by (simp add: add_reminder_def)
  qed
  have 2: "tzinfo (when_utc r) = Some UTC \<and> tzinfo (created_utc r) = Some UTC \<and>
      (tzinfo w = None \<or> tzinfo w = Some USER_TZ \<longrightarrow>
         to_micros (when_utc r) = to_micros w - zone (localize w) * 1000000)"
    if a: "add_reminder zone f utcnow t w st = (Inr r, st')" for r st'
  proof -
    note b = add_reminder_Inr [OF a]
    from b have u: "astimezone_utc zone (localize w) = Inr (when_utc r)" by simp
    have "to_micros (when_utc r) = to_micros w - zone (localize w) * 1000000"
      if "tzinfo w = None \<or> tzinfo w = Some USER_TZ"
    proof -
      from that have l: "tzinfo (localize w) = Some USER_TZ"
        and m: "to_micros (localize w) = to_micros w"
        by (auto simp: localize_def)
      from astimezone_utc_local [OF l u] m show ?thesis by simp
    qed
    with b astimezone_utc_tzinfo [OF u] show ?thesis by simp
  qed
  from 1 2 list_reminders_tzinfo [of g st] show ?thesis by blast
qed

theorem reminders_are_utc_normalised_witness:
  "tzinfo utc_now = None \<and>
   add_reminder zone_0530 NoFault utc_now ''tea'' utc_now st_empty =
     add_reminder zone_0530 NoFault utc_now ''tea'' (utc_now\<lparr>tzinfo := Some USER_TZ\<rparr>) st_empty \<and>
   fst (add_reminder zone_0530 NoFault utc_now ''tea'' at_2300 st_empty) =
     Inr \<lparr>rid = 1, rtext = ''tea'', when_utc = at_2300_utc,
          created_utc = utc_now\<lparr>tzinfo := Some UTC\<rparr>\<rparr> \<and>
   tzinfo at_2300_utc = Some UTC \<and>
   to_micros at_2300_utc = to_micros at_2300 - zone_0530 (localize at_2300) * 1000000"
proof -
  let ?r = "\<lparr>rid = 1, rtext = ''tea'', when_utc = at_2300_utc,
             created_utc = utc_now\<lparr>tzinfo := Some UTC\<rparr>\<rparr>"
  let ?st = "snd (add_reminder zone_0530 NoFault utc_now ''tea'' at_2300 st_empty)"
  have n: "tzinfo utc_now = None" by (simp add: utc_now_def)
  have a0: "fst (add_reminder zone_0530 NoFault utc_now ''tea'' at_2300 st_empty) = Inr ?r"
    by (simp add: add_reminder_NoFault [OF astimezone_at_2300] st_empty_def next_rowid_db_empty)
  then have a: "add_reminder zone_0530 NoFault utc_now ''tea'' at_2300 st_empty = (Inr ?r, ?st)"
    by (metis prod.collapse)
  have l: "tzinfo at_2300 = Some USER_TZ" by (simp add: at_2300_def now_local_def)
  note t1 = reminders_are_utc_normalised [of utc_now zone_0530 NoFault utc_now "''tea''" st_empty NoFault]
  note t2 = reminders_are_utc_normalised [of at_2300 zone_0530 NoFault utc_now "''tea''" st_empty NoFault]
  from t1 n have 1: "add_reminder zone_0530 NoFault utc_now ''tea'' utc_now st_empty =
     add_reminder zone_0530 NoFault utc_now ''tea'' (utc_now\<lparr>tzinfo := Some USER_TZ\<rparr>) st_empty"
    by blast
  from t2 a l have 2: "tzinfo (when_utc ?r) = Some UTC \<and>
      to_micros (when_utc ?r) = to_micros at_2300 - zone_0530 (localize at_2300) * 1000000"
    by blast
  from n 1 2 a0 show ?thesis by simp
qed

text \<open>
  Claim C6, as the code has it. The table has no uniqueness constraint on the text, so a
  listing can hold several entries with one text and one time: adding the same reminder
  twice to the empty store gives a listing of two such entries.
\<close>

theorem add_same_text_twice_counterexample:
  "list_reminders NoFault
     (snd (add_reminder zone_0530 NoFault utc_now ''tea'' at_2300
        (snd (add_reminder zone_0530 NoFault utc_now ''tea'' at_2300 st_empty)))) =
   Inr [\<lparr>rid = 1, rtext = ''tea'', when_utc = at_2300_utc,
         created_utc = utc_now\<lparr>tzinfo := Some UTC\<rparr>\<rparr>,
        \<lparr>rid = 2, rtext = ''tea'', when_utc = at_2300_utc,
         created_utc = utc_now\<lparr>tzinfo := Some UTC\<rparr>\<rparr>]"
proof -
  let ?c = "utc_now\<lparr>tzinfo := Some UTC\<rparr>"
  let ?w = "isoformat zone_0530 at_2300_utc" and ?k = "isoformat zone_0530 ?c"
  let ?st1 = "snd (add_reminder zone_0530 NoFault utc_now ''tea'' at_2300 st_empty)"
  let ?st2 = "snd (add_reminder zone_0530 NoFault utc_now ''tea'' at_2300 ?st1)"
  let ?row1 = "\<lparr>col_id = 1, col_text = ''tea'', col_when_utc = ?w, col_created_utc = ?k\<rparr>"
  let ?row2 = "\<lparr>col_id = 2, col_text = ''tea'', col_when_utc = ?w, col_created_utc = ?k\<rparr>"
  have uv: "valid_datetime at_2300_utc" "tzinfo at_2300_utc = Some UTC"
    by (simp_all add: at_2300_utc_def valid_eval)
  have cv: "valid_datetime ?c" "tzinfo ?c = Some UTC"
    using valid_utc_now by simp_all
  have wf0: "wf_db (conn st_empty)" using wf_db_empty by (simp add: st_empty_def)
  note s1 = add_then_list(2) [OF wf0 valid_utc_now valid_at_2300 astimezone_at_2300, of "''tea''"]
  note s2 = add_then_list(2) [OF s1 valid_utc_now valid_at_2300 astimezone_at_2300, of "''tea''"]
  have "conn ?st1 = insert_row ''tea'' ?w ?k db_empty"
    by (simp add: add_reminder_NoFault [OF astimezone_at_2300] st_empty_def)
  then have c1: "conn ?st1 = \<lparr>rows = [?row1], seq = 1\<rparr>"
    by (simp add: insert_row_def next_rowid_db_empty) (simp add: db_empty_def)
  have "conn ?st2 = insert_row ''tea'' ?w ?k (conn ?st1)"
    by (simp add: add_reminder_NoFault [OF astimezone_at_2300])
  then have c2: "rows (conn ?st2) = [?row1, ?row2]"
    unfolding c1 by (simp add: insert_row_def next_rowid_def)
  have "list_reminders NoFault ?st2 = Inr [projr (row_reminder ?row1), projr (row_reminder ?row2)]"
    unfolding list_reminders_wf [OF s2] c2 by (simp add: sort_key_def)
  then show ?thesis
    by (simp add: row_reminder_new [OF uv cv])
qed

text \<open>
  Claim C6, amended. On a well-formed table and without a storage failure, for every valid
  text and local time whose conversion to UTC is representable, \<^verbatim>\<open>add_reminder\<close> returns a
  reminder with an id greater than zero, with that text and with the converted time; the
  next \<^verbatim>\<open>list_reminders\<close> contains that very reminder, it is the only entry with its id, and
  the entries with that text and that time are one more than before the call (exactly one
  when there was none).
\<close>

theorem add_then_list_round_trip:
  assumes "wf_db (conn st)" "valid_datetime utcnow" "valid_datetime when_local"
    and "astimezone_utc zone (localize when_local) = Inr u"
  shows "\<exists>r st' rs0 rs.
           add_reminder zone NoFault utcnow t when_local st = (Inr r, st') \<and>
           0 < rid r \<and> rtext r = t \<and> when_utc r = u \<and>
           list_reminders NoFault st = Inr rs0 \<and> list_reminders NoFault st' = Inr rs \<and>
           r \<in> set rs \<and>
           length (filter (\<lambda>x. rid x = rid r) rs) = 1 \<and>
           length (filter (\<lambda>x. rtext x = t \<and> when_utc x = u) rs) =
             length (filter (\<lambda>x. rtext x = t \<and> when_utc x = u) rs0) + 1"
proof -
  let ?r = "\<lparr>rid = next_rowid (conn st), rtext = t, when_utc = u,
             created_utc = utcnow\<lparr>tzinfo := Some UTC\<rparr>\<rparr>"
  let ?st = "snd (add_reminder zone NoFault utcnow t when_local st)"
  note a = add_then_list [OF assms, of t]
  from a(4) obtain rs0 rs where l0: "list_reminders NoFault st = Inr rs0"
    and l: "list_reminders NoFault ?st = Inr rs" and m: "?r \<in> set rs"
    and cnt: "\<And>P. length (filter P rs) = length (filter P rs0) + (if P ?r then 1 else 0)"
    by blast
  have ids: "rid ` set rs0 = col_id ` set (rows (conn st))"
    using assms(1) l0 by (rule list_reminders_ids)
  have "rid x \<noteq> next_rowid (conn st)" if "x \<in> set rs0" for x
  proof -
    from that ids obtain y where "y \<in> set (rows (conn st))" "col_id y = rid x"
      by (metis imageE imageI)
    with next_rowid_gt [of "conn st"] show ?thesis by auto
  qed
  then have "filter (\<lambda>x. rid x = rid ?r) rs0 = []" by (simp add: filter_empty_conv)
  with cnt [of "\<lambda>x. rid x = rid ?r"] have one: "length (filter (\<lambda>x. rid x = rid ?r) rs) = 1"
    by simp
  from cnt [of "\<lambda>x. rtext x = t \<and> when_utc x = u"]
  have more: "length (filter (\<lambda>x. rtext x = t \<and> when_utc x = u) rs) =
             length (filter (\<lambda>x. rtext x = t \<and> when_utc x = u) rs0) + 1"
    by simp
  from next_rowid_gt [of "conn st"] have "0 < rid ?r" by simp
  with a(1) l0 l m one more show ?thesis by force
qed

theorem add_then_list_round_trip_witness:
  "wf_db (conn st_two) \<and> valid_datetime utc_now \<and> valid_datetime at_2300 \<and>
   astimezone_utc zone_0530 (localize at_2300) = Inr at_2300_utc \<and>
   (\<exists>r st' rs0 rs.
      add_reminder zone_0530 NoFault utc_now ''tea'' at_2300 st_two = (Inr r, st') \<and>
      0 < rid r \<and> rtext r = ''tea'' \<and> when_utc r = at_2300_utc \<and>
      list_reminders NoFault st_two = Inr rs0 \<and> list_reminders NoFault st' = Inr rs \<and>
      r \<in> set rs \<and>
      length (filter (\<lambda>x. rid x = rid r) rs) = 1 \<and>
      length (filter (\<lambda>x. rtext x = ''tea'' \<and> when_utc x = at_2300_utc) rs) =
        length (filter (\<lambda>x. rtext x = ''tea'' \<and> when_utc x = at_2300_utc) rs0) + 1)"
proof -
  have wf: "wf_db (conn st_two)" using wf_db_two by (simp add: st_two_def)
  from add_then_list_round_trip [OF wf valid_utc_now valid_at_2300 astimezone_at_2300, of "''tea''"]
    wf valid_utc_now valid_at_2300 astimezone_at_2300
  show ?thesis by blast
qed

text \<open>
  Claim C9. The id of a new reminder is chosen by the store (it is \<^verbatim>\<open>cur.lastrowid\<close>, the
  next rowid of the table). Over every run of additions, deletions and firings, with any
  storage failures, the ids of the reminders created are strictly increasing, hence pairwise
  different, and each is greater than zero, than the sequence counter and than every id the
  table held when the run began: no id is used again, also not after its row was deleted.
  The table keeps a primary key throughout.
\<close>

theorem ids_unique_increasing_never_reused:
  assumes "keys_ok (conn st)" "disk st = conn st" "run_ops zone xs st = (ids, st')"
  shows "sorted_wrt (<) ids \<and> distinct ids \<and>
         (\<forall>i \<in> set ids. 0 < i \<and> seq (conn st) < i \<and> (\<forall>r \<in> set (rows (conn st)). col_id r < i) \<and>
            i \<le> seq (conn st')) \<and>
         keys_ok (conn st') \<and> keys_ok (disk st') \<and>
         (\<forall>f u t w r s. add_reminder zone f u t w st = (Inr r, s) \<longrightarrow>
            rid r = next_rowid (conn st) \<and> rid r \<notin> col_id ` set (rows (conn st)))"
proof -
  from assms(1,2) have "seq_ge (seq (conn st)) st" by (simp add: seq_ge_def)
  from run_ops_seq_ge [OF this assms(3)]
  have s: "sorted_wrt (<) ids" and b: "\<forall>i \<in> set ids. seq (conn st) < i \<and> 0 < i"
    and k: "seq_ge (seq (conn st)) st'" and u: "\<forall>i \<in> set ids. i \<le> seq (conn st')" by simp_all
  from s have d: "distinct ids" by (simp add: strict_sorted_iff)
  have "col_id r < i" if "i \<in> set ids" "r \<in> set (rows (conn st))" for i r
    using that b assms(1) unfolding keys_ok_def by fastforce
  moreover have "rid r = next_rowid (conn st) \<and> rid r \<notin> col_id ` set (rows (conn st))"
    if "add_reminder zone f u t w st = (Inr r, s)" for f u t w r s
    using add_reminder_Inr [OF that] next_rowid_gt [of "conn st"] by auto
  ultimately show ?thesis
    using s d b k u unfolding seq_ge_def by blast
qed

theorem ids_unique_increasing_never_reused_witness:
  "keys_ok (conn st_two) \<and> disk st_two = conn st_two \<and>
   fst (run_ops zone_0530
     [Add NoFault utc_now ''tea'' at_2300, Delete NoFault 3, Add NoFault utc_now ''tea'' at_2300]
     st_two) = [3, 4] \<and>
   sorted_wrt (<) (fst (run_ops zone_0530
     [Add NoFault utc_now ''tea'' at_2300, Delete NoFault 3, Add NoFault utc_now ''tea'' at_2300]
     st_two))"
proof -
  let ?ops = "[Add NoFault utc_now ''tea'' at_2300, Delete NoFault 3,
               Add NoFault utc_now ''tea'' at_2300]"
  have k: "keys_ok (conn st_two)" using wf_db_two by (simp add: wf_db_def st_two_def)
  have d: "disk st_two = conn st_two" by (simp add: st_two_def)
  have n: "next_rowid db_two = 3"
    by (simp add: next_rowid_def db_two_def row_past_def row_future_def)
  have i: "sqlite_int64 3" by (simp add: sqlite_int64_def)
  have e: "fst (run_ops zone_0530 ?ops st_two) = [3, 4]"
    by (simp add: add_reminder_NoFault [OF astimezone_at_2300] delete_reminder_NoFault [OF i]
        split: prod.splits)
      (simp add: st_two_def n next_rowid_def insert_row_def delete_row_def db_two_def
        row_past_def row_future_def)
  from ids_unique_increasing_never_reused [OF k d, of zone_0530 ?ops
      "fst (run_ops zone_0530 ?ops st_two)" "snd (run_ops zone_0530 ?ops st_two)"]
  have "sorted_wrt (<) (fst (run_ops zone_0530 ?ops st_two))" by simp
  with k d e show ?thesis by simp
qed

text \<open>
  Claim C2. On a well-formed database file, start-up succeeds and leaves the table as it
  is. For every row: a job for it is pending, and \<^verbatim>\<open>add_job\<close> was called for it, exactly when
  its \<^verbatim>\<open>when_utc\<close> is strictly after the current instant. A row at or before the current
  instant has no job and never gets one: in no later run of additions, deletions and
  firings does the scheduler run a job for it. The row is still listed, and deleting it
  returns \<^verbatim>\<open>True\<close> (its id is a rowid of SQLite, a signed 64-bit integer).
\<close>

theorem recovery_arms_exactly_the_future_rows:
  assumes "wf_db d"
  shows "\<exists>st. init zone NoFault utcnow d = Inr st \<and> conn st = d \<and> disk st = d \<and>
           (\<forall>r \<in> set (rows d). \<exists>x. row_reminder r = Inr x \<and>
              (jobs st (ReminderJob (col_id r)) \<noteq> None \<longleftrightarrow> dt_tuple utcnow < dt_tuple (when_utc x)) \<and>
              (AddJob (ReminderJob (col_id r)) \<in> set (trace st)
                 \<longleftrightarrow> dt_tuple utcnow < dt_tuple (when_utc x)) \<and>
              (\<not> dt_tuple utcnow < dt_tuple (when_utc x) \<longrightarrow>
                 (\<forall>xs. RunJob (ReminderJob (col_id r)) \<notin> set (trace (snd (run_ops zone xs st)))) \<and>
                 (\<exists>rs. list_reminders NoFault st = Inr rs \<and> x \<in> set rs) \<and>
                 (sqlite_int64 (col_id r) \<longrightarrow>
                    fst (delete_reminder NoFault (col_id r) st) = Inr True)))"
proof -
  let ?now = "utcnow\<lparr>tzinfo := Some UTC\<rparr>"
  let ?st0 = "\<lparr>conn = d, disk = d, jobs = Map.empty, trace = [SqlCommit]\<rparr>"
  let ?armed = "\<lambda>r. dt_tuple ?now < dt_tuple (when_utc (projr (row_reminder r)))"
  note w = wf_row_reminder [OF assms, where zone = "\<lambda>_. 0"]
  have all: "\<forall>r \<in> set (rows d). \<exists>x. row_reminder r = Inr x" using w by blast
  from reschedule_rows_spec [OF all, of ?now zone ?st0]
  obtain st where st: "reschedule_rows zone ?now (rows d) ?st0 = Inr st"
    and cn: "conn st = d" and dk: "disk st = d"
    and tr: "trace st = [SqlCommit] @ map (\<lambda>r. AddJob (ReminderJob (col_id r))) (filter ?armed (rows d))"
    and dm: "dom (jobs st) = (\<lambda>r. ReminderJob (col_id r)) ` {r \<in> set (rows d). ?armed r}"
    by auto
  have init: "init zone NoFault utcnow d = Inr st"
    using st by (simp add: init_def reschedule_existing_def)
  have inj: "col_id q = col_id r \<Longrightarrow> q = r" if "q \<in> set (rows d)" "r \<in> set (rows d)" for q r
    using assms that unfolding wf_db_def keys_ok_def by (metis distinct_map inj_onD)
  have wfst: "wf_db (conn st)" using assms cn by simp
  have row: "\<exists>x. row_reminder r = Inr x \<and>
              (jobs st (ReminderJob (col_id r)) \<noteq> None \<longleftrightarrow> dt_tuple utcnow < dt_tuple (when_utc x)) \<and>
              (AddJob (ReminderJob (col_id r)) \<in> set (trace st)
                 \<longleftrightarrow> dt_tuple utcnow < dt_tuple (when_utc x)) \<and>
              (\<not> dt_tuple utcnow < dt_tuple (when_utc x) \<longrightarrow>
                 (\<forall>xs. RunJob (ReminderJob (col_id r)) \<notin> set (trace (snd (run_ops zone xs st)))) \<and>
                 (\<exists>rs. list_reminders NoFault st = Inr rs \<and> x \<in> set rs) \<and>
                 (sqlite_int64 (col_id r) \<longrightarrow>
                    fst (delete_reminder NoFault (col_id r) st) = Inr True))"
    if r: "r \<in> set (rows d)" for r
  proof -
    let ?x = "projr (row_reminder r)"
    let ?j = "ReminderJob (col_id r)"
    from w [OF r] have x: "row_reminder r = Inr ?x" by simp
    have j: "jobs st ?j \<noteq> None \<longleftrightarrow> dt_tuple utcnow < dt_tuple (when_utc ?x)"
    proof -
      have "?j \<in> dom (jobs st) \<longleftrightarrow> ?armed r"
        unfolding dm using r inj by auto
      then show ?thesis by (simp add: domIff)
    qed
    have a: "AddJob ?j \<in> set (trace st) \<longleftrightarrow> dt_tuple utcnow < dt_tuple (when_utc ?x)"
      unfolding tr using r inj by auto
    have rest: "(\<forall>xs. RunJob ?j \<notin> set (trace (snd (run_ops zone xs st)))) \<and>
        (\<exists>rs. list_reminders NoFault st = Inr rs \<and> ?x \<in> set rs) \<and>
        (sqlite_int64 (col_id r) \<longrightarrow> fst (delete_reminder NoFault (col_id r) st) = Inr True)"
      if past: "\<not> dt_tuple utcnow < dt_tuple (when_utc ?x)"
    proof -
      from j past have none: "jobs st ?j = None" by simp
      have norun: "RunJob ?j \<notin> set (trace st)" unfolding tr by auto
      from assms r have le: "col_id r \<le> seq (conn st)" "col_id r \<le> seq (disk st)"
        unfolding cn dk wf_db_def keys_ok_def by auto
      have "RunJob ?j \<notin> set (trace (snd (run_ops zone xs st)))" for xs
        using run_ops_never_runs [OF none norun le, of zone xs "fst (run_ops zone xs st)"
            "snd (run_ops zone xs st)"] by simp
      moreover have "\<exists>rs. list_reminders NoFault st = Inr rs \<and> ?x \<in> set rs"
        unfolding list_reminders_wf [OF wfst] cn using r by auto
      moreover have "fst (delete_reminder NoFault (col_id r) st) = Inr True"
        if "sqlite_int64 (col_id r)"
        unfolding delete_reminder_NoFault [OF that] cn using r by simp
      ultimately show ?thesis by blast
    qed
    from x j a rest show ?thesis by blast
  qed
  from init cn dk row show ?thesis by blast
qed

theorem recovery_arms_exactly_the_future_rows_witness:
  "wf_db db_two \<and>
   (\<exists>st. init zone_0530 NoFault utc_now db_two = Inr st \<and>
      jobs st (ReminderJob 1) = None \<and> jobs st (ReminderJob 2) \<noteq> None \<and>
      AddJob (ReminderJob 1) \<notin> set (trace st) \<and>
      fst (delete_reminder NoFault 1 st) = Inr True)"
proof -
  from recovery_arms_exactly_the_future_rows [OF wf_db_two, of zone_0530 utc_now]
  obtain st where st: "init zone_0530 NoFault utc_now db_two = Inr st"
    and rows: "\<forall>r \<in> set (rows db_two). \<exists>x. row_reminder r = Inr x \<and>
              (jobs st (ReminderJob (col_id r)) \<noteq> None \<longleftrightarrow> dt_tuple utc_now < dt_tuple (when_utc x)) \<and>
              (AddJob (ReminderJob (col_id r)) \<in> set (trace st)
                 \<longleftrightarrow> dt_tuple utc_now < dt_tuple (when_utc x)) \<and>
              (\<not> dt_tuple utc_now < dt_tuple (when_utc x) \<longrightarrow>
                 (\<forall>xs. RunJob (ReminderJob (col_id r)) \<notin> set (trace (snd (run_ops zone_0530 xs st)))) \<and>
                 (\<exists>rs. list_reminders NoFault st = Inr rs \<and> x \<in> set rs) \<and>
                 (sqlite_int64 (col_id r) \<longrightarrow>
                    fst (delete_reminder NoFault (col_id r) st) = Inr True))"
    by blast
  have p: "\<not> dt_tuple utc_now < dt_tuple past_utc" and f: "dt_tuple utc_now < dt_tuple at_2300_utc"
    by (simp_all add: dt_tuple_def utc_now_def past_utc_def at_2300_utc_def)
  have m: "row_past \<in> set (rows db_two)" "row_future \<in> set (rows db_two)"
    by (simp_all add: db_two_def)
  have i: "col_id row_past = 1" "col_id row_future = 2"
    by (simp_all add: row_past_def row_future_def)
  from bspec [OF rows m(1)] obtain x where x: "row_reminder row_past = Inr x"
    and xj: "jobs st (ReminderJob 1) \<noteq> None \<longleftrightarrow> dt_tuple utc_now < dt_tuple (when_utc x)"
    and xa: "AddJob (ReminderJob 1) \<in> set (trace st) \<longleftrightarrow> dt_tuple utc_now < dt_tuple (when_utc x)"
    and xd: "\<not> dt_tuple utc_now < dt_tuple (when_utc x) \<longrightarrow>
               (sqlite_int64 1 \<longrightarrow> fst (delete_reminder NoFault 1 st) = Inr True)"
    unfolding i by blast
  have r: "sqlite_int64 1" by (simp add: sqlite_int64_def)
  from x have "when_utc x = past_utc" unfolding row_reminder_past by auto
  with p r xj xa xd have 1: "jobs st (ReminderJob 1) = None \<and> AddJob (ReminderJob 1) \<notin> set (trace st) \<and>
      fst (delete_reminder NoFault 1 st) = Inr True"
    by simp
  from bspec [OF rows m(2)] obtain y where y: "row_reminder row_future = Inr y"
    and yj: "jobs st (ReminderJob 2) \<noteq> None \<longleftrightarrow> dt_tuple utc_now < dt_tuple (when_utc y)"
    unfolding i by blast
  from y have "when_utc y = at_2300_utc" unfolding row_reminder_future by auto
  with f yj have 2: "jobs st (ReminderJob 2) \<noteq> None" by simp
  from wf_db_two st 1 2 show ?thesis by blast
qed

text \<open>
  Claim C1. Let the parser read a clock time: what it returns lies on the calendar day of
  the reference instant \<open>now\<close>, in the local zone (or naive). Then \<^verbatim>\<open>parse_time_local\<close>
  returns the parsed time itself when it is after \<open>now\<close>, and otherwise the parsed time plus
  exactly one day of 24 hours; this exists unless the day is the last one a \<^verbatim>\<open>datetime\<close> can
  hold, where \<^verbatim>\<open>None\<close> is returned. Whatever is returned is strictly after \<open>now\<close> in the
  comparison of Python and at most one day after it, and is the parsed time plus nothing or
  plus one day, the latter exactly when the parsed time was not after \<open>now\<close>: nothing is
  rolled forward twice or left in the past. Times are compared and added as Python does for
  two values of the same zone, on the reading of the local clock.
\<close>

theorem parse_time_local_rolls_over_once:
  assumes "valid_datetime now" "tzinfo now = Some USER_TZ"
    and "parse text_time now = Inr dt" "valid_datetime dt"
    and "tzinfo dt = None \<or> tzinfo dt = Some USER_TZ"
    and "year dt = year now" "month dt = month now" "day dt = day now"
  shows "(dt_tuple now < dt_tuple dt \<longrightarrow>
            parse_time_local parse zone now text_time = Some (localize dt)) \<and>
         (dt_tuple dt \<le> dt_tuple now \<and> (year now, month now, day now) \<noteq> (9999, 12, 31) \<longrightarrow>
            (\<exists>r. parse_time_local parse zone now text_time = Some r \<and>
                 to_micros r = to_micros dt + US_PER_DAY)) \<and>
         (\<forall>r. parse_time_local parse zone now text_time = Some r \<longrightarrow>
            valid_datetime r \<and> tzinfo r = Some USER_TZ \<and>
            dt_cmp zone r now = Inr 1 \<and> dt_tuple now < dt_tuple r \<and>
            to_micros now < to_micros r \<and> to_micros r \<le> to_micros now + US_PER_DAY \<and>
            (to_micros r = to_micros dt \<or> to_micros r = to_micros dt + US_PER_DAY) \<and>
            (to_micros r = to_micros dt + US_PER_DAY \<longleftrightarrow> dt_tuple dt \<le> dt_tuple now))"
proof -
  note eq = parse_time_local_eq [where parse = parse and text_time = text_time and zone = zone,
      OF assms(2,3,5)]
  have lz: "tzinfo (localize dt) = Some USER_TZ" using assms(5) by (rule localize_tzinfo)
  have lv: "valid_datetime (localize dt)" using assms(4) by simp
  have 1: "parse_time_local parse zone now text_time = Some (localize dt)"
    if "dt_tuple now < dt_tuple dt"
  proof -
    from that have "\<not> dt_tuple dt \<le> dt_tuple now" by (simp add: not_le)
    then show ?thesis unfolding eq by simp
  qed
  have 2: "\<exists>r. parse_time_local parse zone now text_time = Some r \<and>
      to_micros r = to_micros dt + US_PER_DAY"
    if le: "dt_tuple dt \<le> dt_tuple now" and nl: "(year now, month now, day now) \<noteq> (9999, 12, 31)"
  proof -
    from nl assms(6-8) have "(year (localize dt), month (localize dt), day (localize dt))
        \<noteq> (9999, 12, 31)" by (simp add: localize_def)
    from dt_add_day [OF lv this] obtain r where r: "dt_add (localize dt) US_PER_DAY = Inr r"
      by blast
    from dt_add_Inr [OF r] have "to_micros r = to_micros dt + US_PER_DAY" by simp
    with r le show ?thesis unfolding eq by simp
  qed
  have 3: "valid_datetime r \<and> tzinfo r = Some USER_TZ \<and>
      dt_cmp zone r now = Inr 1 \<and> dt_tuple now < dt_tuple r \<and>
      to_micros now < to_micros r \<and> to_micros r \<le> to_micros now + US_PER_DAY \<and>
      (to_micros r = to_micros dt \<or> to_micros r = to_micros dt + US_PER_DAY) \<and>
      (to_micros r = to_micros dt + US_PER_DAY \<longleftrightarrow> dt_tuple dt \<le> dt_tuple now)"
    if res: "parse_time_local parse zone now text_time = Some r" for r
  proof (cases "dt_tuple dt \<le> dt_tuple now")
    case True
    with res have r: "dt_add (localize dt) US_PER_DAY = Inr r"
      unfolding eq by (simp split: sum.splits)
    from dt_add_Inr [OF r] lz have v: "valid_datetime r" and m: "to_micros r = to_micros dt + US_PER_DAY"
      and z: "tzinfo r = Some USER_TZ" by simp_all
    from same_day_micros [OF assms(4,1,6,7,8)] m have gt: "to_micros now < to_micros r" by simp
    from True have "to_micros dt \<le> to_micros now"
      using to_micros_le_iff [OF assms(4,1)] by simp
    with m have le: "to_micros r \<le> to_micros now + US_PER_DAY" by simp
    from gt have lt: "dt_tuple now < dt_tuple r"
      using to_micros_less_iff [OF assms(1) v] by simp
    then have "dt_cmp zone r now = Inr 1"
      using z assms(2) by (simp add: dt_cmp_same_tz cmp_greater)
    with v z lt gt le m True show ?thesis by simp
  next
    case False
    with res have r: "r = localize dt" unfolding eq by simp
    from False have lt: "dt_tuple now < dt_tuple r" unfolding r by simp
    then have gt: "to_micros now < to_micros r"
      using to_micros_less_iff [OF assms(1) lv] unfolding r by simp
    from same_day_micros [OF assms(1,4)] assms(6-8)
    have le: "to_micros r \<le> to_micros now + US_PER_DAY" unfolding r by simp
    from lt have "dt_cmp zone r now = Inr 1"
      using lz assms(2) unfolding r by (simp add: dt_cmp_same_tz cmp_greater)
    with lt gt le lv lz False show ?thesis unfolding r by (simp add: US_PER_DAY_def)
  qed
  from 1 2 3 show ?thesis by blast
qed

theorem parse_time_local_rolls_over_once_witness:
  "valid_datetime now_local \<and> tzinfo now_local = Some USER_TZ \<and>
   parse_clock ''23:00'' now_local = Inr at_2300 \<and>
   parse_clock ''21:00'' now_local = Inr (now_local\<lparr>hour := 21, minute := 0\<rparr>) \<and>
   parse_time_local parse_clock zone_0530 now_local ''23:00'' = Some at_2300 \<and>
   parse_time_local parse_clock zone_0530 now_local ''21:00'' = Some tomorrow_2100"
proof -
  let ?d = "now_local\<lparr>hour := 21, minute := 0\<rparr>"
  have z: "tzinfo now_local = Some USER_TZ" by (simp add: now_local_def)
  have a: "valid_datetime at_2300" "tzinfo at_2300 = None \<or> tzinfo at_2300 = Some USER_TZ"
    "year at_2300 = year now_local" "month at_2300 = month now_local" "day at_2300 = day now_local"
    "dt_tuple now_local < dt_tuple at_2300" "localize at_2300 = at_2300"
    by (simp_all add: at_2300_def now_local_def valid_eval dt_tuple_def localize_def)
  have b: "valid_datetime ?d" "tzinfo ?d = None \<or> tzinfo ?d = Some USER_TZ"
    "year ?d = year now_local" "month ?d = month now_local" "day ?d = day now_local"
    "dt_tuple ?d \<le> dt_tuple now_local" "(year now_local, month now_local, day now_local) \<noteq> (9999, 12, 31)"
    by (simp_all add: now_local_def valid_eval dt_tuple_def)
  from parse_time_local_rolls_over_once [where parse = parse_clock and text_time = "''23:00''"
      and zone = zone_0530, OF valid_now_local z parse_clock_2300 a(1-5)] a(6,7)
  have 1: "parse_time_local parse_clock zone_0530 now_local ''23:00'' = Some at_2300" by simp
  note t = parse_time_local_rolls_over_once [where parse = parse_clock and text_time = "''21:00''"
      and zone = zone_0530, OF valid_now_local z parse_clock_2100 b(1-5)]
  from t b(6,7) obtain r where r: "parse_time_local parse_clock zone_0530 now_local ''21:00'' = Some r"
    and m: "to_micros r = to_micros ?d + US_PER_DAY" by blast
  from t r have v: "valid_datetime r" and rz: "tzinfo r = Some USER_TZ" by blast+
  have "dt_tuple r = dt_tuple tomorrow_2100"
    using v valid_tomorrow_2100 by (rule to_micros_inj) (simp add: m to_micros_tomorrow_2100)
  then have "r = tomorrow_2100"
    by (rule datetime_eqI) (simp add: rz tomorrow_2100_def)
  with r have 2: "parse_time_local parse_clock zone_0530 now_local ''21:00'' = Some tomorrow_2100"
    by simp
  from valid_now_local z parse_clock_2300 parse_clock_2100 1 2 show ?thesis by simp
qed

end
